(* ===== verification/Coin_Prelude.thy ===== *)
theory Coin_Prelude
  imports Main "HOL-Library.Word"
begin

text \<open>
  Shared vocabulary of the common-coin development: the types that name the values of
  \<^verbatim>\<open>honeybadgermpc/protocols/commoncoin.py\<close> (bytes, party ids, rounds), and
  the Python built-ins the coin calls, written out with their Python behaviour:
  membership in \<^verbatim>\<open>range(n)\<close>, an insertion-ordered \<^verbatim>\<open>dict\<close> as an
  association list, the slice \<^verbatim>\<open>xs[:m]\<close>, the first element \<^verbatim>\<open>xs[0]\<close>,
  and the two operations of \<^verbatim>\<open>asyncio.Queue(maxsize)\<close> the coin uses,
  \<^verbatim>\<open>put_nowait\<close> and \<^verbatim>\<open>get\<close>. The facts the component proofs share are
  collected in the \<open>py_simps\<close> bundle.
\<close>

named_theorems py_simps "facts on the modelled Python built-ins, used by the component proofs"

type_synonym byte = "8 word"
type_synonym bytes = "byte list"
type_synonym party = int
type_synonym round = int

subsection \<open>\<^verbatim>\<open>i in range(n)\<close>\<close>

definition py_in_range :: "int \<Rightarrow> int \<Rightarrow> bool" where
  "py_in_range i n \<longleftrightarrow> 0 \<le> i \<and> i < n"

subsection \<open>Insertion-ordered dictionaries\<close>

text \<open>
  A Python \<^verbatim>\<open>dict\<close> keeps its keys in insertion order; \<^verbatim>\<open>d[k] = v\<close>
  overwrites the value in place when \<open>k\<close> is a key and appends \<open>(k, v)\<close>
  otherwise; \<^verbatim>\<open>k in d\<close> tests the keys; \<^verbatim>\<open>list(d.items())\<close> is the
  association list itself.
\<close>

definition dict_has :: "('k \<times> 'v) list \<Rightarrow> 'k \<Rightarrow> bool" where
  "dict_has d k \<longleftrightarrow> k \<in> set (map fst d)"

fun dict_set :: "('k \<times> 'v) list \<Rightarrow> 'k \<Rightarrow> 'v \<Rightarrow> ('k \<times> 'v) list" where
  "dict_set [] k v = [(k, v)]"
| "dict_set ((k', v') # d) k v =
     (if k' = k then (k, v) # d else (k', v') # dict_set d k v)"

subsection \<open>Slicing and indexing\<close>

text \<open>
  \<^verbatim>\<open>xs[:m]\<close> keeps the first \<open>m\<close> elements; a negative \<open>m\<close> counts from the
  end, and a bound beyond the list is cut to it. \<^verbatim>\<open>xs[0]\<close> raises
  \<^verbatim>\<open>IndexError\<close> on an empty list, which is \<open>None\<close> here.
\<close>

definition py_slice_to :: "'a list \<Rightarrow> int \<Rightarrow> 'a list" where
  "py_slice_to xs m = take (nat (if m < 0 then int (length xs) + m else m)) xs"

definition py_index0 :: "'a list \<Rightarrow> 'a option" where
  "py_index0 xs = (case xs of [] \<Rightarrow> None | x # _ \<Rightarrow> Some x)"

subsection \<open>\<^verbatim>\<open>asyncio.Queue(maxsize)\<close>\<close>

text \<open>
  The queue's contents, oldest first. \<^verbatim>\<open>put_nowait\<close> raises
  \<^verbatim>\<open>QueueFull\<close> (\<open>None\<close>) when a bounded queue (\<open>0 < maxsize\<close>) holds
  \<open>maxsize\<close> items; \<^verbatim>\<open>get\<close> suspends (\<open>None\<close>: not enabled) on an empty
  queue and otherwise removes the oldest item.
\<close>

definition queue_put_nowait :: "int \<Rightarrow> 'a list \<Rightarrow> 'a \<Rightarrow> 'a list option" where
  "queue_put_nowait maxsize q x =
     (if 0 < maxsize \<and> maxsize \<le> int (length q) then None else Some (q @ [x]))"

definition queue_get :: "'a list \<Rightarrow> ('a \<times> 'a list) option" where
  "queue_get q = (case q of [] \<Rightarrow> None | x # q' \<Rightarrow> Some (x, q'))"

subsection \<open>Lemmas\<close>

lemma dict_set_new [py_simps]:
  "\<not> dict_has d k \<Longrightarrow> dict_set d k v = d @ [(k, v)]"
  by (induction d) (auto simp: dict_has_def)

lemma dict_has_set [py_simps]:
  "dict_has (d @ [(k, v)]) k' \<longleftrightarrow> k' = k \<or> dict_has d k'"
  by (auto simp: dict_has_def)

lemma map_of_dict_set [py_simps]: "map_of (dict_set d k v) = (map_of d)(k \<mapsto> v)"
  by (induction d) (auto simp: fun_eq_iff)

lemma dict_set_distinct [py_simps]:
  "distinct (map fst d) \<Longrightarrow> distinct (map fst (dict_set d k v))"
proof (induction d)
  case Nil
  then show ?case by simp
next
  case (Cons p d)
  obtain k' v' where p: "p = (k', v')" by (cases p)
  have "set (map fst (dict_set d k v)) = insert k (set (map fst d))"
    using map_of_dict_set [of d k v] by (simp add: dom_map_of_conv_image_fst [symmetric])
  with Cons p show ?case by auto
qed

lemma py_slice_to_all [py_simps]:
  "int (length xs) \<le> m \<Longrightarrow> py_slice_to xs m = xs"
  by (simp add: py_slice_to_def)

lemma py_index0_Some [py_simps]: "py_index0 xs = Some x \<longleftrightarrow> xs \<noteq> [] \<and> hd xs = x"
  by (cases xs) (auto simp: py_index0_def)

lemma queue_put_nowait_1 [py_simps]:
  "queue_put_nowait 1 q x = (if q = [] then Some [x] else None)"
  by (cases q) (auto simp: queue_put_nowait_def)

lemma queue_get_Some [py_simps]: "queue_get q = Some (x, q') \<longleftrightarrow> q = x # q'"
  by (cases q) (auto simp: queue_get_def)

end
