(* ===== verification/Threshold_Sig.thy ===== *)
theory Threshold_Sig
  imports Coin_Prelude
begin

text \<open>
  The threshold-signature capability the coin is built on
  (\<^verbatim>\<open>honeybadgermpc.protocols.crypto.boldyreva\<close>, not among the sources and
  modelled from its interface in the spec, section 6), the hash of line 14 and the
  derivation of the coin bit on line 77. The public key \<^verbatim>\<open>pk\<close> is a record of
  its parameters \<open>k\<close>, \<open>l\<close> and its four operations; the private key
  \<^verbatim>\<open>sk\<close> a record of its signing function; \<^verbatim>\<open>serialize\<close>,
  \<^verbatim>\<open>deserialize1\<close> and \<^verbatim>\<open>hashlib.sha256\<close> a third record. A
  verification that raises \<^verbatim>\<open>AssertionError\<close> is \<open>False\<close>, a
  deserialisation that raises is \<open>None\<close>. The coin's correctness rests on one
  property of the scheme, \<open>tbls_sound\<close>: any \<open>k\<close> shares from distinct
  parties that verify on a digest combine to one signature, fixed by the digest, that
  verifies. A small scheme over bytes (\<open>toy_pk\<close>) satisfies it and serves the
  witnesses.
\<close>

record ('sig, 'h) tbls_pk =
  pk_k :: int
  pk_l :: int
  hash_message :: "string \<Rightarrow> 'h"
  verify_share :: "'sig \<Rightarrow> party \<Rightarrow> 'h \<Rightarrow> bool"
  combine_shares :: "(party \<times> 'sig) list \<Rightarrow> 'sig"
  verify_signature :: "'sig \<Rightarrow> 'h \<Rightarrow> bool"

record ('sig, 'h) tbls_sk =
  sk_sign :: "'h \<Rightarrow> 'sig"

record 'sig tbls_env =
  serialize :: "'sig \<Rightarrow> bytes"
  deserialize1 :: "bytes \<Rightarrow> 'sig option"
  sha256 :: "bytes \<Rightarrow> bytes"

subsection \<open>The hash and the coin bit\<close>

definition hash :: "'sig tbls_env \<Rightarrow> bytes \<Rightarrow> bytes" where
  "hash env x = sha256 env x"

text \<open>\<^verbatim>\<open>bit = hash(serialize(sig))[0] % 2\<close>: \<open>None\<close> is the
  \<^verbatim>\<open>IndexError\<close> of an empty digest.\<close>

definition coin_bit :: "'sig tbls_env \<Rightarrow> 'sig \<Rightarrow> nat option" where
  "coin_bit env sig = map_option (\<lambda>d. unat d mod 2) (py_index0 (hash env (serialize env sig)))"

subsection \<open>What the coin needs of the scheme\<close>

definition valid_share_set :: "('sig, 'h) tbls_pk \<Rightarrow> 'h \<Rightarrow> (party \<times> 'sig) list \<Rightarrow> bool" where
  "valid_share_set pk h S \<longleftrightarrow>
     distinct (map fst S) \<and> int (length S) = pk_k pk \<and>
     list_all (\<lambda>(i, s). py_in_range i (pk_l pk) \<and> verify_share pk s i h) S"

definition tbls_sound :: "('sig, 'h) tbls_pk \<Rightarrow> ('h \<Rightarrow> 'sig) \<Rightarrow> bool" where
  "tbls_sound pk tsig \<longleftrightarrow>
     (\<forall>h S. valid_share_set pk h S \<longrightarrow> combine_shares pk S = tsig h) \<and>
     (\<forall>h. verify_signature pk (tsig h) h)"

definition digest_nonempty :: "'sig tbls_env \<Rightarrow> bool" where
  "digest_nonempty env \<longleftrightarrow> (\<forall>x. hash env x \<noteq> [])"

definition sk_correct :: "('sig, 'h) tbls_pk \<Rightarrow> ('sig, 'h) tbls_sk \<Rightarrow> party \<Rightarrow> bool" where
  "sk_correct pk sk i \<longleftrightarrow> (\<forall>h. verify_share pk (sk_sign sk h) i h)"

definition codec_ok :: "'sig tbls_env \<Rightarrow> bool" where
  "codec_ok env \<longleftrightarrow> (\<forall>s. deserialize1 env (serialize env s) = Some s)"

subsection \<open>A scheme over bytes, for the witnesses\<close>

text \<open>Party \<open>i\<close>'s share of digest \<open>h\<close> is \<open>h + i\<close>; combining subtracts
  the party id from the first share; the signature of \<open>h\<close> is \<open>h\<close>.\<close>

definition toy_pk :: "int \<Rightarrow> int \<Rightarrow> (byte, byte) tbls_pk" where
  "toy_pk k l =
     \<lparr>pk_k = k, pk_l = l,
      hash_message = (\<lambda>s. word_of_nat (length s)),
      verify_share = (\<lambda>s i h. s = h + word_of_int i),
      combine_shares = (\<lambda>S. case S of [] \<Rightarrow> 0 | (i, s) # _ \<Rightarrow> s - word_of_int i),
      verify_signature = (\<lambda>s h. s = h)\<rparr>"

definition toy_sk :: "party \<Rightarrow> (byte, byte) tbls_sk" where
  "toy_sk i = \<lparr>sk_sign = (\<lambda>h. h + word_of_int i)\<rparr>"

definition toy_env :: "byte tbls_env" where
  "toy_env =
     \<lparr>serialize = (\<lambda>s. [s]),
      deserialize1 = (\<lambda>bs. case bs of [b] \<Rightarrow> Some b | _ \<Rightarrow> None),
      sha256 = (\<lambda>bs. bs @ [0])\<rparr>"

subsection \<open>Lemmas\<close>

lemma tbls_sound_combine:
  "tbls_sound pk tsig \<Longrightarrow> valid_share_set pk h S \<Longrightarrow> combine_shares pk S = tsig h"
  by (simp add: tbls_sound_def)

lemma tbls_sound_verify: "tbls_sound pk tsig \<Longrightarrow> verify_signature pk (tsig h) h"
  by (simp add: tbls_sound_def)

lemma coin_bit_Some:
  "digest_nonempty env \<Longrightarrow> coin_bit env s = Some (unat (hd (hash env (serialize env s))) mod 2)"
  by (cases "hash env (serialize env s)") (auto simp: coin_bit_def digest_nonempty_def py_index0_def)

lemma coin_bit_range: "coin_bit env s = Some b \<Longrightarrow> b \<in> {0, 1}"
  by (auto simp: coin_bit_def)

lemma toy_pk_sound: "0 < k \<Longrightarrow> tbls_sound (toy_pk k l) (\<lambda>h. h)"
  unfolding tbls_sound_def valid_share_set_def
  by (auto simp: toy_pk_def split: list.splits)

lemma toy_sk_correct: "sk_correct (toy_pk k l) (toy_sk i) i"
  by (simp add: sk_correct_def toy_pk_def toy_sk_def)

lemma toy_env_digest: "digest_nonempty toy_env"
  by (simp add: digest_nonempty_def hash_def toy_env_def)

lemma toy_env_codec: "codec_ok toy_env"
  by (simp add: codec_ok_def toy_env_def)

end
