(* ===== verification/Py_Repr.thy ===== *)
theory Py_Repr
  imports Coin_Prelude
begin

text \<open>
  The string the coin signs for a round: \<^verbatim>\<open>str((sid, r))\<close>
  (commoncoin.py lines 51 and 92), built as Python builds it: \<^verbatim>\<open>repr\<close> of the
  session id, a comma and a space, the decimal form of the round. Session ids are
  Python \<^verbatim>\<open>str\<close>s of code points below 256 (an Isabelle \<open>char\<close> is one
  such code point). The round trip \<open>parse_int (py_str_int i) = Some i\<close> shows that
  the decimal form loses nothing, and the inverse of \<^verbatim>\<open>repr\<close> that the whole string
  loses nothing, so different rounds, of one session or of two, sign different strings.
\<close>

subsection \<open>\<^verbatim>\<open>str(i)\<close> of an integer\<close>

fun py_digits :: "nat \<Rightarrow> string" where
  "py_digits m =
     (if m < 10 then [char_of (48 + m)] else py_digits (m div 10) @ [char_of (48 + m mod 10)])"

declare py_digits.simps [simp del]

definition py_str_int :: "int \<Rightarrow> string" where
  "py_str_int i = (if i < 0 then CHR ''-'' # py_digits (nat (- i)) else py_digits (nat i))"

subsection \<open>\<^verbatim>\<open>repr(s)\<close> of a string\<close>

text \<open>
  CPython's \<^verbatim>\<open>unicode_repr\<close>: the quote is \<^verbatim>\<open>"\<close> when the string
  holds \<^verbatim>\<open>'\<close> and no \<^verbatim>\<open>"\<close>, else \<^verbatim>\<open>'\<close>; the quote and the
  backslash are escaped, tab, newline and carriage return are written \<^verbatim>\<open>\t\<close>,
  \<^verbatim>\<open>\n\<close>, \<^verbatim>\<open>\r\<close>, every other non-printable code point below 256
  as \<^verbatim>\<open>\xhh\<close> (printable: 32 to 126, and 161 to 255 but 173).
\<close>

definition hex_digit :: "nat \<Rightarrow> char" where
  "hex_digit d = (if d < 10 then char_of (48 + d) else char_of (87 + d))"

definition py_printable :: "char \<Rightarrow> bool" where
  "py_printable c \<longleftrightarrow>
     (let v = (of_char c :: nat) in (32 \<le> v \<and> v < 127) \<or> (161 \<le> v \<and> v \<noteq> 173))"

definition py_escape_char :: "char \<Rightarrow> char \<Rightarrow> string" where
  "py_escape_char q c =
     (if c = q \<or> c = CHR 0x5C then [CHR 0x5C, c]
      else if c = CHR 0x09 then [CHR 0x5C, CHR ''t'']
      else if c = CHR 0x0A then [CHR 0x5C, CHR ''n'']
      else if c = CHR 0x0D then [CHR 0x5C, CHR ''r'']
      else if py_printable c then [c]
      else [CHR 0x5C, CHR ''x'', hex_digit (of_char c div 16), hex_digit (of_char c mod 16)])"

definition py_repr_str :: "string \<Rightarrow> string" where
  "py_repr_str s =
     (let q = (if CHR 0x27 \<in> set s \<and> CHR 0x22 \<notin> set s then CHR 0x22 else CHR 0x27)
      in q # concat (map (py_escape_char q) s) @ [q])"

subsection \<open>\<^verbatim>\<open>str((sid, r))\<close>\<close>

definition coin_context :: "string \<Rightarrow> round \<Rightarrow> string" where
  "coin_context sid r = ''('' @ py_repr_str sid @ '', '' @ py_str_int r @ '')''"

subsection \<open>Reading a decimal back\<close>

definition is_digit :: "char \<Rightarrow> bool" where
  "is_digit c \<longleftrightarrow> (let v = (of_char c :: nat) in 48 \<le> v \<and> v < 58)"

definition digits_val :: "string \<Rightarrow> nat" where
  "digits_val ds = foldl (\<lambda>acc c. 10 * acc + (of_char c - 48)) 0 ds"

definition parse_int :: "string \<Rightarrow> int option" where
  "parse_int s =
     (case s of
        [] \<Rightarrow> None
      | c # ds \<Rightarrow>
          if c = CHR ''-'' then
            (if ds \<noteq> [] \<and> list_all is_digit ds then Some (- int (digits_val ds)) else None)
          else if list_all is_digit s then Some (int (digits_val s)) else None)"

subsection \<open>Reading a signed string back\<close>

text \<open>The inverse of \<^verbatim>\<open>repr\<close>, as Python's parser reads a \<^verbatim>\<open>str\<close>
  literal: after the opening quote, a backslash escape stands for one character, the
  first unescaped quote ends the literal; \<open>py_unescape\<close> returns the characters
  read and what follows the closing quote. \<open>context_parse\<close> reads a session id
  and a round back out of \<^verbatim>\<open>str((sid, r))\<close>.\<close>

definition hex_val :: "char \<Rightarrow> nat" where
  "hex_val c = (let v = (of_char c :: nat) in if v < 58 then v - 48 else v - 87)"

fun py_unescape :: "char \<Rightarrow> string \<Rightarrow> (string \<times> string) option" where
  "py_unescape q [] = None"
| "py_unescape q (c # cs) =
     (if c = q then Some ([], cs)
      else if c = CHR 0x5C then
        (case cs of
           [] \<Rightarrow> None
         | d # cs' \<Rightarrow>
             if d = CHR ''x'' then
               (case cs' of
                  h1 # h2 # cs'' \<Rightarrow>
                    map_option (\<lambda>(s, r). (char_of (16 * hex_val h1 + hex_val h2) # s, r))
                      (py_unescape q cs'')
                | _ \<Rightarrow> None)
             else
               map_option (\<lambda>(s, r). ((if d = CHR ''t'' then CHR 0x09 else if d = CHR ''n'' then CHR 0x0A
                   else if d = CHR ''r'' then CHR 0x0D else d) # s, r)) (py_unescape q cs'))
      else map_option (\<lambda>(s, r). (c # s, r)) (py_unescape q cs))"

definition py_unrepr :: "string \<Rightarrow> (string \<times> string) option" where
  "py_unrepr s =
     (case s of
        q # cs \<Rightarrow> if q = CHR 0x27 \<or> q = CHR 0x22 then py_unescape q cs else None
      | [] \<Rightarrow> None)"

definition context_parse :: "string \<Rightarrow> (string \<times> round) option" where
  "context_parse s =
     (case s of
        c # cs \<Rightarrow>
          if c \<noteq> CHR ''('' then None
          else (case py_unrepr cs of
                  None \<Rightarrow> None
                | Some (sid, rest) \<Rightarrow>
                    if take 2 rest = '', '' \<and> 2 < length rest \<and> last rest = CHR '')''
                    then map_option (\<lambda>r. (sid, r)) (parse_int (butlast (drop 2 rest)))
                    else None)
      | [] \<Rightarrow> None)"

subsection \<open>Lemmas\<close>

lemma of_char_digit: "(d::nat) < 10 \<Longrightarrow> (of_char (char_of (48 + d)) :: nat) = 48 + d"
  by (simp add: of_char_of)

lemma is_digit_char: "(d::nat) < 10 \<Longrightarrow> is_digit (char_of (48 + d))"
  by (simp add: is_digit_def of_char_digit)

lemma py_digits_ne: "py_digits m \<noteq> []"
  by (subst py_digits.simps) simp

lemma py_digits_all_digits: "list_all is_digit (py_digits m)"
proof (induction m rule: py_digits.induct)
  case (1 m)
  then show ?case
    by (subst py_digits.simps) (simp add: is_digit_char)
qed

lemma digits_val_snoc: "digits_val (ds @ [c]) = 10 * digits_val ds + (of_char c - 48)"
  by (simp add: digits_val_def)

lemma digits_val_py_digits: "digits_val (py_digits m) = m"
proof (induction m rule: py_digits.induct)
  case (1 m)
  show ?case
  proof (cases "m < 10")
    case True
    then show ?thesis
      by (subst py_digits.simps) (simp add: digits_val_def of_char_digit)
  next
    case False
    with "1.IH" have "digits_val (py_digits (m div 10)) = m div 10" by simp
    with False show ?thesis
      by (subst py_digits.simps) (simp add: digits_val_snoc of_char_digit)
  qed
qed

lemma py_digits_hd: "hd (py_digits m) \<noteq> CHR ''-''"
proof -
  have "is_digit (hd (py_digits m))"
    using py_digits_all_digits [of m] py_digits_ne [of m]
    by (cases "py_digits m") auto
  then show ?thesis by (auto simp: is_digit_def)
qed

lemma py_str_int_neg: "i < 0 \<Longrightarrow> py_str_int i = CHR ''-'' # py_digits (nat (- i))"
  by (simp add: py_str_int_def)

theorem parse_int_py_str_int: "parse_int (py_str_int i) = Some i"
proof (cases "i < 0")
  case True
  then show ?thesis
    by (simp add: py_str_int_neg parse_int_def py_digits_ne py_digits_all_digits
        digits_val_py_digits)
next
  case False
  obtain c ds where cs: "py_digits (nat i) = c # ds"
    using py_digits_ne by (cases "py_digits (nat i)") auto
  from cs have "c \<noteq> CHR ''-''" using py_digits_hd [of "nat i"] by simp
  with False cs show ?thesis
    using py_digits_all_digits [of "nat i"] digits_val_py_digits [of "nat i"]
    by (simp add: py_str_int_def parse_int_def)
qed

lemma py_str_int_eq_iff: "py_str_int r = py_str_int r' \<longleftrightarrow> r = r'"
  by (metis option.inject parse_int_py_str_int)

lemma hex_val_digit: "d < 16 \<Longrightarrow> hex_val (hex_digit d) = d"
  by (auto simp: hex_val_def hex_digit_def of_char_of Let_def)

lemma char_of_hex: "char_of (16 * hex_val (hex_digit (of_char c div 16)) + hex_val (hex_digit (of_char c mod 16))) = c"
proof -
  have "(of_char c :: nat) < 256" by (rule nat_of_char_less_256)
  then have "of_char c div 16 < (16::nat)" by (simp add: div_less_iff_less_mult)
  then show ?thesis by (simp add: hex_val_digit)
qed

lemma py_unescape_escape:
  assumes q: "q = CHR 0x27 \<or> q = CHR 0x22"
  shows "py_unescape q (py_escape_char q c @ more) = map_option (\<lambda>(s, r). (c # s, r)) (py_unescape q more)"
proof -
  consider (esc) "c = q \<or> c = CHR 0x5C" | (tab) "\<not> (c = q \<or> c = CHR 0x5C)" "c = CHR 0x09"
    | (nl) "\<not> (c = q \<or> c = CHR 0x5C)" "c = CHR 0x0A"
    | (cr) "\<not> (c = q \<or> c = CHR 0x5C)" "c = CHR 0x0D"
    | (pr) "\<not> (c = q \<or> c = CHR 0x5C)" "c \<notin> {CHR 0x09, CHR 0x0A, CHR 0x0D}" "py_printable c"
    | (hex) "\<not> (c = q \<or> c = CHR 0x5C)" "c \<notin> {CHR 0x09, CHR 0x0A, CHR 0x0D}" "\<not> py_printable c"
    by blast
  then show ?thesis
  proof cases
    case esc
    then show ?thesis using q by (auto simp: py_escape_char_def char_of_hex py_printable_def)
  next
    case tab
    then show ?thesis using q by (auto simp: py_escape_char_def char_of_hex py_printable_def)
  next
    case nl
    then show ?thesis using q by (auto simp: py_escape_char_def char_of_hex py_printable_def)
  next
    case cr
    then show ?thesis using q by (auto simp: py_escape_char_def char_of_hex py_printable_def)
  next
    case pr
    then show ?thesis using q by (auto simp: py_escape_char_def char_of_hex py_printable_def)
  next
    case hex
    then show ?thesis using q by (auto simp: py_escape_char_def char_of_hex py_printable_def)
  qed
qed

lemma py_unescape_body:
  "q = CHR 0x27 \<or> q = CHR 0x22 \<Longrightarrow> py_unescape q (concat (map (py_escape_char q) s) @ q # rest) = Some (s, rest)"
  by (induction s) (simp_all add: py_unescape_escape)

lemma py_unrepr_repr: "py_unrepr (py_repr_str s @ rest) = Some (s, rest)"
  by (simp add: py_unrepr_def py_repr_str_def Let_def py_unescape_body)

lemma py_str_int_ne: "py_str_int r \<noteq> []"
  by (simp add: py_str_int_def py_digits_ne)

lemma coin_context_cons:
  "coin_context sid r = CHR ''('' # py_repr_str sid @ '', '' @ py_str_int r @ '')''"
  by (simp add: coin_context_def)

lemma context_parse_layout:
  "context_parse (CHR ''('' # py_repr_str sid @ '', '' @ py_str_int r @ '')'') = Some (sid, r)"
  using py_unrepr_repr [of sid "'', '' @ py_str_int r @ '')''"] py_str_int_ne [of r]
  by (simp add: context_parse_def parse_int_py_str_int butlast_append)

text \<open>C14: two rounds sign the same string only if they are the same round of the same
  session, so a share of one round or session is a share of no other's digest string.\<close>

theorem coin_context_inj:
  "coin_context sid r = coin_context sid' r' \<longleftrightarrow> sid = sid' \<and> r = r'"
  unfolding coin_context_cons by (metis context_parse_layout option.inject prod.inject)

end
