(* ===== verification/Coin_Engine.thy ===== *)
theory Coin_Engine
  imports Threshold_Sig Py_Repr
begin

text \<open>
  The receive side of \<^verbatim>\<open>shared_coin\<close> (commoncoin.py lines 18 to 82): the two
  closure variables \<^verbatim>\<open>received\<close> (a \<^verbatim>\<open>defaultdict(dict)\<close> from rounds to
  an insertion-ordered dict from senders to shares) and \<^verbatim>\<open>output_queue\<close> (a
  \<^verbatim>\<open>defaultdict\<close> of \<^verbatim>\<open>asyncio.Queue(1)\<close>) form the record
  \<open>coin_state\<close>; a defaultdict is a total function whose default is the empty dict
  or the empty queue (the entry a read inserts is indistinguishable from a missing one).
  One iteration of the \<^verbatim>\<open>while True\<close> loop of \<^verbatim>\<open>_recv\<close> is
  \<open>recv_step\<close>, its threshold branch (lines 69 to 80) \<open>resolve_round\<close>; every
  exception that leaves the loop body is an \<open>Inl\<close> carrying the error and the
  state at the raise, and ends the task. The loop over the messages delivered so far is
  \<open>recv_loop\<close>. The invariant \<open>engine_inv\<close> says, of every round, that the
  ledger holds at most one share per party, only in-range parties, only shares that
  verify on the round's digest, and that the round's queue stays empty until the ledger
  reaches \<open>f + 1\<close> shares.
\<close>

record coin_config =
  cc_sid :: string
  cc_pid :: party
  cc_n :: int
  cc_f :: int

record 'sig coin_state =
  received :: "round \<Rightarrow> (party \<times> 'sig) list"
  output_queue :: "round \<Rightarrow> nat list"

text \<open>\<^verbatim>\<open>(i, (_, r, sig_bytes)) = await receive()\<close>\<close>

type_synonym coin_msg = "party \<times> string \<times> round \<times> bytes"

datatype recv_error =
    ShareDeserializeError
  | SenderOutOfRange
  | NegativeRound
  | CombinedSignatureInvalid
  | DigestIndexError
  | OutputQueueFull

datatype recv_outcome = Redundant | ShareFailed | ShareStored | CoinPut round nat

type_synonym 'sig recv_result = "(recv_error \<times> 'sig coin_state) + ('sig coin_state \<times> recv_outcome)"

definition init_coin_state :: "'sig coin_state" where
  "init_coin_state = \<lparr>received = (\<lambda>_. []), output_queue = (\<lambda>_. [])\<rparr>"

definition round_digest :: "coin_config \<Rightarrow> ('sig, 'h) tbls_pk \<Rightarrow> round \<Rightarrow> 'h" where
  "round_digest c pk r = hash_message pk (coin_context (cc_sid c) r)"

definition resolve_round ::
  "coin_config \<Rightarrow> ('sig, 'h) tbls_pk \<Rightarrow> 'sig tbls_env \<Rightarrow> 'sig coin_state \<Rightarrow> round \<Rightarrow> 'h
   \<Rightarrow> 'sig recv_result" where
  "resolve_round c pk env st r h =
     (let sigs = py_slice_to (received st r) (cc_f c + 1);
          sig = combine_shares pk sigs
      in if \<not> verify_signature pk sig h then Inl (CombinedSignatureInvalid, st)
         else case coin_bit env sig of
           None \<Rightarrow> Inl (DigestIndexError, st)
         | Some b \<Rightarrow>
             (case queue_put_nowait 1 (output_queue st r) b of
                None \<Rightarrow> Inl (OutputQueueFull, st)
              | Some q \<Rightarrow> Inr (st\<lparr>output_queue := (output_queue st)(r := q)\<rparr>, CoinPut r b)))"

definition recv_step ::
  "coin_config \<Rightarrow> ('sig, 'h) tbls_pk \<Rightarrow> 'sig tbls_env \<Rightarrow> 'sig coin_state \<Rightarrow> coin_msg
   \<Rightarrow> 'sig recv_result" where
  "recv_step c pk env st m =
     (case m of (i, _, r, sig_bytes) \<Rightarrow>
       (case deserialize1 env sig_bytes of
          None \<Rightarrow> Inl (ShareDeserializeError, st)
        | Some sig \<Rightarrow>
            if \<not> py_in_range i (cc_n c) then Inl (SenderOutOfRange, st)
            else if \<not> 0 \<le> r then Inl (NegativeRound, st)
            else if dict_has (received st r) i then Inr (st, Redundant)
            else
              let h = round_digest c pk r in
              if \<not> verify_share pk sig i h then Inr (st, ShareFailed)
              else
                let st' = st\<lparr>received := (received st)(r := dict_set (received st r) i sig)\<rparr>
                in if int (length (received st' r)) = cc_f c + 1
                   then resolve_round c pk env st' r h
                   else Inr (st', ShareStored)))"

fun recv_loop ::
  "coin_config \<Rightarrow> ('sig, 'h) tbls_pk \<Rightarrow> 'sig tbls_env \<Rightarrow> 'sig coin_state \<Rightarrow> coin_msg list
   \<Rightarrow> 'sig coin_state \<times> recv_outcome list \<times> recv_error option" where
  "recv_loop c pk env st [] = (st, [], None)"
| "recv_loop c pk env st (m # ms) =
     (case recv_step c pk env st m of
        Inl (e, st') \<Rightarrow> (st', [], Some e)
      | Inr (st', out) \<Rightarrow>
          (case recv_loop c pk env st' ms of (st'', outs, err) \<Rightarrow> (st'', out # outs, err)))"

subsection \<open>Invariant and the predicates the theorems use\<close>

definition round_inv :: "coin_config \<Rightarrow> ('sig, 'h) tbls_pk \<Rightarrow> 'sig coin_state \<Rightarrow> round \<Rightarrow> bool" where
  "round_inv c pk st r \<longleftrightarrow>
     distinct (map fst (received st r)) \<and>
     list_all (\<lambda>(i, s). py_in_range i (cc_n c) \<and> verify_share pk s i (round_digest c pk r))
       (received st r) \<and>
     (int (length (received st r)) \<le> cc_f c \<longrightarrow> output_queue st r = [])"

definition engine_inv :: "coin_config \<Rightarrow> ('sig, 'h) tbls_pk \<Rightarrow> 'sig coin_state \<Rightarrow> bool" where
  "engine_inv c pk st \<longleftrightarrow> (\<forall>r. round_inv c pk st r)"

definition config_ok :: "coin_config \<Rightarrow> ('sig, 'h) tbls_pk \<Rightarrow> bool" where
  "config_ok c pk \<longleftrightarrow> pk_k pk = cc_f c + 1 \<and> pk_l pk = cc_n c"

definition msg_ok :: "coin_config \<Rightarrow> 'sig tbls_env \<Rightarrow> coin_msg \<Rightarrow> bool" where
  "msg_ok c env m \<longleftrightarrow>
     (case m of (i, _, r, bs) \<Rightarrow> deserialize1 env bs \<noteq> None \<and> py_in_range i (cc_n c) \<and> 0 \<le> r)"

definition ideal_coin ::
  "'sig tbls_env \<Rightarrow> ('sig, 'h) tbls_pk \<Rightarrow> ('h \<Rightarrow> 'sig) \<Rightarrow> string \<Rightarrow> round \<Rightarrow> nat option" where
  "ideal_coin env pk tsig sid r = coin_bit env (tsig (hash_message pk (coin_context sid r)))"

definition is_put :: "round \<Rightarrow> recv_outcome \<Rightarrow> bool" where
  "is_put r out \<longleftrightarrow> (case out of CoinPut r' _ \<Rightarrow> r' = r | _ \<Rightarrow> False)"

definition round_senders :: "round \<Rightarrow> coin_msg list \<Rightarrow> party list" where
  "round_senders r ms = map fst (filter (\<lambda>(_, _, r', _). r' = r) ms)"

definition share_senders ::
  "coin_config \<Rightarrow> ('sig, 'h) tbls_pk \<Rightarrow> 'sig tbls_env \<Rightarrow> round \<Rightarrow> coin_msg list \<Rightarrow> party list" where
  "share_senders c pk env r ms =
     map fst (filter (\<lambda>(i, _, r', bs). r' = r \<and>
       (case deserialize1 env bs of None \<Rightarrow> False | Some s \<Rightarrow> verify_share pk s i (round_digest c pk r))) ms)"

definition msg_round :: "coin_msg \<Rightarrow> round" where
  "msg_round m = fst (snd (snd m))"

definition rproj :: "round \<Rightarrow> 'sig coin_state \<Rightarrow> (party \<times> 'sig) list \<times> nat list" where
  "rproj r st = (received st r, output_queue st r)"

definition forged_share :: "coin_config \<Rightarrow> ('sig, 'h) tbls_pk \<Rightarrow> 'sig tbls_env \<Rightarrow> coin_msg \<Rightarrow> bool" where
  "forged_share c pk env m \<longleftrightarrow> msg_ok c env m \<and>
     (case m of (i, _, r, bs) \<Rightarrow>
        (case deserialize1 env bs of None \<Rightarrow> False | Some s \<Rightarrow> \<not> verify_share pk s i (round_digest c pk r)))"

definition silent :: "recv_outcome \<Rightarrow> bool" where
  "silent out \<longleftrightarrow> out = Redundant \<or> out = ShareFailed"

fun put_bits :: "round \<Rightarrow> recv_outcome list \<Rightarrow> nat list" where
  "put_bits r [] = []"
| "put_bits r (CoinPut r' b # outs) = (if r' = r then b # put_bits r outs else put_bits r outs)"
| "put_bits r (_ # outs) = put_bits r outs"

text \<open>The reference selection: the valid shares of round \<open>r\<close> in arrival order, and
  of those the first of each sender.\<close>

fun first_shares :: "(party \<times> 'sig) list \<Rightarrow> (party \<times> 'sig) list \<Rightarrow> (party \<times> 'sig) list" where
  "first_shares acc [] = acc"
| "first_shares acc ((i, s) # xs) =
     (if i \<in> set (map fst acc) then first_shares acc xs else first_shares (acc @ [(i, s)]) xs)"

definition valid_shares ::
  "coin_config \<Rightarrow> ('sig, 'h) tbls_pk \<Rightarrow> 'sig tbls_env \<Rightarrow> round \<Rightarrow> coin_msg list \<Rightarrow> (party \<times> 'sig) list" where
  "valid_shares c pk env r ms =
     concat (map (\<lambda>(i, _, r', bs). if r' \<noteq> r then [] else
       (case deserialize1 env bs of None \<Rightarrow> []
        | Some s \<Rightarrow> if verify_share pk s i (round_digest c pk r) then [(i, s)] else [])) ms)"

subsection \<open>A four-party instance, for the witnesses\<close>

text \<open>\<open>n = 4\<close>, \<open>f = 1\<close>, session \<^verbatim>\<open>'sidA'\<close>, the byte scheme of
  \<open>Threshold_Sig\<close>; \<open>demo_share i r\<close> is party \<open>i\<close>'s honest share of
  round \<open>r\<close> as it arrives from the network.\<close>

definition demo_cfg :: coin_config where
  "demo_cfg = \<lparr>cc_sid = ''sidA'', cc_pid = 0, cc_n = 4, cc_f = 1\<rparr>"

definition demo_pk :: "(byte, byte) tbls_pk" where
  "demo_pk = toy_pk 2 4"

definition demo_share :: "party \<Rightarrow> round \<Rightarrow> coin_msg" where
  "demo_share i r = (i, ''COIN'', r, serialize toy_env (sk_sign (toy_sk i) (round_digest demo_cfg demo_pk r)))"

subsection \<open>One iteration of the receive loop\<close>

lemma recv_step_ok_unfold:
  assumes "deserialize1 env bs = Some sig" "py_in_range i (cc_n c)" "0 \<le> r"
  shows "recv_step c pk env st (i, t, r, bs) =
    (if dict_has (received st r) i then Inr (st, Redundant)
     else if \<not> verify_share pk sig i (round_digest c pk r) then Inr (st, ShareFailed)
     else if int (length (received st r)) = cc_f c
     then resolve_round c pk env (st\<lparr>received := (received st)(r := received st r @ [(i, sig)])\<rparr>) r
            (round_digest c pk r)
     else Inr (st\<lparr>received := (received st)(r := received st r @ [(i, sig)])\<rparr>, ShareStored))"
  using assms by (simp add: recv_step_def Let_def dict_set_new)

lemma resolve_round_unfold:
  assumes "int (length (received st r)) = cc_f c + 1"
  shows "resolve_round c pk env st r h =
    (if \<not> verify_signature pk (combine_shares pk (received st r)) h
     then Inl (CombinedSignatureInvalid, st)
     else case coin_bit env (combine_shares pk (received st r)) of
       None \<Rightarrow> Inl (DigestIndexError, st)
     | Some b \<Rightarrow>
         if output_queue st r = [] then Inr (st\<lparr>output_queue := (output_queue st)(r := [b])\<rparr>, CoinPut r b)
         else Inl (OutputQueueFull, st))"
  using assms
  by (simp add: resolve_round_def py_slice_to_all queue_put_nowait_1 split: option.split)


lemma recv_step_Inr:
  assumes step: "recv_step c pk env st (i, t, r, bs) = Inr (st', out)"
  obtains (redundant) sig where "deserialize1 env bs = Some sig" "py_in_range i (cc_n c)" "0 \<le> r"
    "dict_has (received st r) i" "out = Redundant" "st' = st"
  | (failed) sig where "deserialize1 env bs = Some sig" "py_in_range i (cc_n c)" "0 \<le> r"
    "\<not> dict_has (received st r) i" "\<not> verify_share pk sig i (round_digest c pk r)"
    "out = ShareFailed" "st' = st"
  | (stored) sig where "deserialize1 env bs = Some sig" "py_in_range i (cc_n c)" "0 \<le> r"
    "\<not> dict_has (received st r) i" "verify_share pk sig i (round_digest c pk r)"
    "received st' = (received st)(r := received st r @ [(i, sig)])"
    "int (length (received st r)) \<noteq> cc_f c" "output_queue st' = output_queue st"
    "out = ShareStored"
  | (put) sig b where "deserialize1 env bs = Some sig" "py_in_range i (cc_n c)" "0 \<le> r"
    "\<not> dict_has (received st r) i" "verify_share pk sig i (round_digest c pk r)"
    "received st' = (received st)(r := received st r @ [(i, sig)])"
    "int (length (received st r)) = cc_f c"
    "verify_signature pk (combine_shares pk (received st r @ [(i, sig)])) (round_digest c pk r)"
    "coin_bit env (combine_shares pk (received st r @ [(i, sig)])) = Some b"
    "output_queue st r = []" "output_queue st' = (output_queue st)(r := [b])"
    "out = CoinPut r b"
proof -
  from step obtain sig where ds: "deserialize1 env bs = Some sig"
    by (auto simp: recv_step_def split: option.splits)
  from step ds have rng: "py_in_range i (cc_n c)" and r0: "0 \<le> r"
    by (auto simp: recv_step_def split: if_splits)
  note unf = recv_step_ok_unfold [OF ds rng r0, of pk st t]
  let ?st1 = "st\<lparr>received := (received st)(r := received st r @ [(i, sig)])\<rparr>"
  consider (dup) "dict_has (received st r) i"
    | (bad) "\<not> dict_has (received st r) i" "\<not> verify_share pk sig i (round_digest c pk r)"
    | (short) "\<not> dict_has (received st r) i" "verify_share pk sig i (round_digest c pk r)"
        "int (length (received st r)) \<noteq> cc_f c"
    | (cross) "\<not> dict_has (received st r) i" "verify_share pk sig i (round_digest c pk r)"
        "int (length (received st r)) = cc_f c"
    by blast
  then show thesis
  proof cases
    case dup
    with step unf show thesis by (intro redundant [OF ds rng r0]) simp_all
  next
    case bad
    with step unf show thesis by (intro failed [OF ds rng r0]) simp_all
  next
    case short
    with step unf show thesis by (intro stored [OF ds rng r0]) auto
  next
    case cross
    then have len: "int (length (received ?st1 r)) = cc_f c + 1" by simp
    from cross step unf have res: "resolve_round c pk env ?st1 r (round_digest c pk r) = Inr (st', out)"
      by simp
    note res' = res [unfolded resolve_round_unfold [OF len]]
    from res' obtain b where
      vs: "verify_signature pk (combine_shares pk (received st r @ [(i, sig)])) (round_digest c pk r)"
      and cb: "coin_bit env (combine_shares pk (received st r @ [(i, sig)])) = Some b"
      by (auto split: if_splits option.splits)
    with res' have "output_queue st r = [] \<and> st' = ?st1\<lparr>output_queue := (output_queue st)(r := [b])\<rparr>
        \<and> out = CoinPut r b"
      by (auto split: if_splits)
    with cross vs cb show thesis by (intro put [OF ds rng r0]) auto
  qed
qed


lemma init_coin_state_simps [simp]:
  "received init_coin_state r = []" "output_queue init_coin_state r = []"
  by (simp_all add: init_coin_state_def)

lemma engine_inv_init: "engine_inv c pk init_coin_state"
  by (simp add: engine_inv_def round_inv_def init_coin_state_def)

lemma recv_step_round_inv:
  assumes inv: "engine_inv c pk st" and step: "recv_step c pk env st (i, t, r, bs) = Inr (st', out)"
  shows "round_inv c pk st' r'"
proof -
  from inv have ri: "round_inv c pk st r'" by (simp add: engine_inv_def)
  from step show ?thesis
  proof (cases rule: recv_step_Inr)
    case redundant
    with ri show ?thesis by simp
  next
    case failed
    with ri show ?thesis by simp
  next
    case (stored sig)
    with ri show ?thesis
      by (cases "r' = r") (auto simp: round_inv_def dict_has_def)
  next
    case (put sig b)
    with ri show ?thesis
      by (cases "r' = r") (auto simp: round_inv_def dict_has_def)
  qed
qed

lemma recv_step_engine_inv:
  "engine_inv c pk st \<Longrightarrow> recv_step c pk env st m = Inr (st', out) \<Longrightarrow> engine_inv c pk st'"
  by (cases m) (auto simp: engine_inv_def intro: recv_step_round_inv)

lemma crossing_valid_share_set:
  assumes "round_inv c pk st r" "config_ok c pk" "\<not> dict_has (received st r) i"
    "py_in_range i (cc_n c)" "verify_share pk sig i (round_digest c pk r)"
    "int (length (received st r)) = cc_f c"
  shows "valid_share_set pk (round_digest c pk r) (received st r @ [(i, sig)])"
  using assms by (auto simp: valid_share_set_def round_inv_def config_ok_def dict_has_def)

lemma recv_step_total_tuple:
  assumes inv: "engine_inv c pk st" and cfg: "config_ok c pk" and snd: "tbls_sound pk tsig"
    and dg: "digest_nonempty env" and ok: "msg_ok c env (i, t, r, bs)"
  shows "\<exists>st' out. recv_step c pk env st (i, t, r, bs) = Inr (st', out)"
proof -
  from ok obtain sig where ds: "deserialize1 env bs = Some sig" and rng: "py_in_range i (cc_n c)"
    and r0: "0 \<le> r" by (auto simp: msg_ok_def)
  from inv have ri: "round_inv c pk st r" by (simp add: engine_inv_def)
  let ?h = "round_digest c pk r"
  let ?S = "received st r @ [(i, sig)]"
  let ?st1 = "st\<lparr>received := (received st)(r := ?S)\<rparr>"
  show ?thesis
  proof (cases "\<not> dict_has (received st r) i \<and> verify_share pk sig i ?h \<and>
      int (length (received st r)) = cc_f c")
    case False
    then show ?thesis by (auto simp: recv_step_ok_unfold [OF ds rng r0])
  next
    case True
    with ri cfg rng have "valid_share_set pk ?h ?S" by (intro crossing_valid_share_set) auto
    with snd have comb: "combine_shares pk ?S = tsig ?h" by (rule tbls_sound_combine)
    from True ri have q: "output_queue st r = []" by (simp add: round_inv_def)
    have len: "int (length (received ?st1 r)) = cc_f c + 1" using True by simp
    show ?thesis
      using True q comb tbls_sound_verify [OF snd] coin_bit_Some [OF dg]
      by (simp add: recv_step_ok_unfold [OF ds rng r0] resolve_round_unfold [OF len])
  qed
qed

lemma recv_step_put_ideal_tuple:
  assumes inv: "engine_inv c pk st" and cfg: "config_ok c pk" and snd: "tbls_sound pk tsig"
    and step: "recv_step c pk env st (i, t, r, bs) = Inr (st', CoinPut r' b)"
  shows "r' = r \<and> ideal_coin env pk tsig (cc_sid c) r = Some b"
  using step
proof (cases rule: recv_step_Inr)
  case (put sig b')
  from inv have ri: "round_inv c pk st r" by (simp add: engine_inv_def)
  with put cfg have "valid_share_set pk (round_digest c pk r) (received st r @ [(i, sig)])"
    by (intro crossing_valid_share_set) auto
  with snd put show ?thesis
    by (simp add: tbls_sound_combine ideal_coin_def round_digest_def)
qed simp_all

subsection \<open>The receive loop\<close>

lemma recv_step_received:
  assumes "recv_step c pk env st (i, t, r, bs) = Inr (st', out)"
  shows "received st' r' = received st r' \<or>
    (r' = r \<and> (\<exists>sig. received st' r' = received st r' @ [(i, sig)]))"
  using assms by (cases rule: recv_step_Inr) auto

lemma recv_step_put:
  assumes "recv_step c pk env st (i, t, r, bs) = Inr (st', out)" "is_put r' out"
  shows "r' = r \<and> int (length (received st r')) = cc_f c \<and>
    int (length (received st' r')) = cc_f c + 1"
  using assms by (cases rule: recv_step_Inr) (auto simp: is_put_def)

lemma recv_step_cross:
  assumes "recv_step c pk env st (i, t, r, bs) = Inr (st', out)"
    "int (length (received st r')) \<le> cc_f c" "cc_f c + 1 \<le> int (length (received st' r'))"
  shows "is_put r' out"
  using assms by (cases rule: recv_step_Inr) (auto simp: is_put_def split: if_splits)

lemma recv_step_valid_share:
  assumes "recv_step c pk env st (i, t, r, bs) = Inr (st', out)"
    "deserialize1 env bs = Some s" "verify_share pk s i (round_digest c pk r)"
  shows "i \<in> set (map fst (received st' r))"
  using assms by (cases rule: recv_step_Inr) (auto simp: dict_has_def)

lemma recv_loop_engine_inv:
  "engine_inv c pk st \<Longrightarrow> recv_loop c pk env st ms = (st', outs, None) \<Longrightarrow> engine_inv c pk st'"
proof (induction ms arbitrary: st outs)
  case (Cons m ms)
  then show ?case
    by (auto split: sum.splits prod.splits intro: recv_step_engine_inv)
qed simp

lemma recv_loop_total:
  assumes "engine_inv c pk st" "config_ok c pk" "tbls_sound pk tsig" "digest_nonempty env"
    "list_all (msg_ok c env) ms"
  shows "\<exists>st' outs. recv_loop c pk env st ms = (st', outs, None)"
  using assms
proof (induction ms arbitrary: st)
  case (Cons m ms)
  obtain i t r bs where m: "m = (i, t, r, bs)" by (cases m rule: prod_cases4)
  with Cons.prems obtain st1 out where st1: "recv_step c pk env st m = Inr (st1, out)"
    using recv_step_total_tuple by fastforce
  with Cons.prems have inv1: "engine_inv c pk st1" by (blast intro: recv_step_engine_inv)
  from Cons.IH [OF inv1] Cons.prems obtain st' outs where "recv_loop c pk env st1 ms = (st', outs, None)"
    by auto
  with st1 show ?case by auto
qed simp


lemma recv_loop_Cons_Inr:
  assumes "recv_loop c pk env st (m # ms) = (st', outs, err)"
  obtains (died) e where "recv_step c pk env st m = Inl (e, st')" "outs = []" "err = Some e"
  | (cont) st1 out outs1 where "recv_step c pk env st m = Inr (st1, out)"
      "recv_loop c pk env st1 ms = (st', outs1, err)" "outs = out # outs1"
  using assms that by (auto split: sum.splits prod.splits)

lemma recv_loop_put_ideal:
  assumes "engine_inv c pk st" "config_ok c pk" "tbls_sound pk tsig"
    "recv_loop c pk env st ms = (st', outs, err)" "CoinPut r b \<in> set outs"
  shows "ideal_coin env pk tsig (cc_sid c) r = Some b"
  using assms
proof (induction ms arbitrary: st outs)
  case (Cons m ms)
  obtain i t r0 bs where m: "m = (i, t, r0, bs)" by (cases m rule: prod_cases4)
  from Cons.prems(4) show ?case
  proof (cases rule: recv_loop_Cons_Inr)
    case died
    with Cons.prems show ?thesis by simp
  next
    case (cont st1 out outs1)
    show ?thesis
    proof (cases "out = CoinPut r b")
      case True
      with cont Cons.prems m show ?thesis using recv_step_put_ideal_tuple by blast
    next
      case False
      with cont Cons.prems have "CoinPut r b \<in> set outs1" by simp
      moreover from cont Cons.prems have "engine_inv c pk st1" by (blast intro: recv_step_engine_inv)
      ultimately show ?thesis using Cons.IH cont Cons.prems by blast
    qed
  qed
qed simp

lemma recv_loop_put_count:
  assumes "recv_loop c pk env st ms = (st', outs, err)"
  shows "length (filter (is_put r) outs) \<le> (if cc_f c + 1 \<le> int (length (received st r)) then 0 else 1)"
  using assms
proof (induction ms arbitrary: st outs)
  case (Cons m ms)
  obtain i t r0 bs where m: "m = (i, t, r0, bs)" by (cases m rule: prod_cases4)
  from Cons.prems show ?case
  proof (cases rule: recv_loop_Cons_Inr)
    case died
    then show ?thesis by simp
  next
    case (cont st1 out outs1)
    note IH = Cons.IH [OF cont(2)]
    have grow: "length (received st r) \<le> length (received st1 r)"
      using recv_step_received [OF cont(1) [unfolded m], of r] by auto
    show ?thesis
    proof (cases "is_put r out")
      case True
      with recv_step_put [OF cont(1) [unfolded m]] have
        "int (length (received st r)) = cc_f c" "cc_f c + 1 \<le> int (length (received st1 r))"
        by auto
      with IH cont True show ?thesis by simp
    next
      case False
      with IH cont grow show ?thesis by (auto split: if_splits)
    qed
  qed
qed simp


lemma share_senders_Cons:
  "share_senders c pk env r ((i, t, r0, bs) # ms) =
     (if r0 = r \<and> (\<exists>s. deserialize1 env bs = Some s \<and> verify_share pk s i (round_digest c pk r))
      then i # share_senders c pk env r ms else share_senders c pk env r ms)"
  by (auto simp: share_senders_def split: option.splits)

lemma recv_loop_senders:
  assumes "recv_loop c pk env st ms = (st', outs, None)"
  shows "set (map fst (received st r)) \<union> set (share_senders c pk env r ms) \<subseteq> set (map fst (received st' r))"
  using assms
proof (induction ms arbitrary: st outs)
  case (Cons m ms)
  obtain i t r0 bs where m: "m = (i, t, r0, bs)" by (cases m rule: prod_cases4)
  from Cons.prems show ?case
  proof (cases rule: recv_loop_Cons_Inr)
    case died
    then show ?thesis by simp
  next
    case (cont st1 out outs1)
    note IH = Cons.IH [OF cont(2)]
    have mono: "set (map fst (received st r)) \<subseteq> set (map fst (received st1 r))"
      using recv_step_received [OF cont(1) [unfolded m], of r] by auto
    show ?thesis
    proof (cases "r0 = r \<and> (\<exists>s. deserialize1 env bs = Some s \<and> verify_share pk s i (round_digest c pk r))")
      case True
      then have "i \<in> set (map fst (received st1 r))"
        using recv_step_valid_share [OF cont(1) [unfolded m]] by blast
      with True IH mono m show ?thesis by (auto simp: share_senders_Cons)
    next
      case False
      with IH mono m show ?thesis by (auto simp: share_senders_Cons)
    qed
  qed
qed (simp add: share_senders_def)

lemma recv_loop_cross:
  assumes "recv_loop c pk env st ms = (st', outs, None)"
    "int (length (received st r)) \<le> cc_f c" "cc_f c + 1 \<le> int (length (received st' r))"
  shows "list_ex (is_put r) outs"
  using assms
proof (induction ms arbitrary: st outs)
  case (Cons m ms)
  obtain i t r0 bs where m: "m = (i, t, r0, bs)" by (cases m rule: prod_cases4)
  from Cons.prems(1) show ?case
  proof (cases rule: recv_loop_Cons_Inr)
    case died
    then show ?thesis by simp
  next
    case (cont st1 out outs1)
    show ?thesis
    proof (cases "int (length (received st1 r)) \<le> cc_f c")
      case True
      with Cons.IH [OF cont(2)] Cons.prems cont show ?thesis by simp
    next
      case False
      with recv_step_cross [OF cont(1) [unfolded m]] Cons.prems(2) cont show ?thesis by simp
    qed
  qed
qed simp

lemma distinct_length_card: "distinct (map fst xs) \<Longrightarrow> length xs = card (set (map fst xs))"
  using distinct_card [of "map fst xs"] by simp

theorem recv_loop_resolves:
  assumes inv: "engine_inv c pk st" and cfg: "config_ok c pk" and snd: "tbls_sound pk tsig"
    and dg: "digest_nonempty env" and ok: "list_all (msg_ok c env) ms"
    and open_r: "int (length (received st r)) \<le> cc_f c"
    and quorum: "cc_f c + 1 \<le> int (card (set (share_senders c pk env r ms)))"
  shows "\<exists>st' outs b. recv_loop c pk env st ms = (st', outs, None) \<and> CoinPut r b \<in> set outs \<and>
    ideal_coin env pk tsig (cc_sid c) r = Some b"
proof -
  from recv_loop_total [OF inv cfg snd dg ok] obtain st' outs
    where run: "recv_loop c pk env st ms = (st', outs, None)" by blast
  from recv_loop_engine_inv [OF inv run] have "distinct (map fst (received st' r))"
    by (simp add: engine_inv_def round_inv_def)
  then have len: "length (received st' r) = card (set (map fst (received st' r)))"
    by (rule distinct_length_card)
  have "card (set (share_senders c pk env r ms)) \<le> card (set (map fst (received st' r)))"
    using recv_loop_senders [OF run, of r] by (intro card_mono) auto
  with quorum len have "cc_f c + 1 \<le> int (length (received st' r))" by simp
  from recv_loop_cross [OF run open_r this] obtain out where o: "out \<in> set outs" "is_put r out"
    by (auto simp: list_ex_iff)
  from o(2) obtain b where "out = CoinPut r b"
    by (cases out) (auto simp: is_put_def)
  with o(1) have b: "CoinPut r b \<in> set outs" by simp
  with recv_loop_put_ideal [OF inv cfg snd run] run show ?thesis by blast
qed


lemma round_senders_Cons:
  "set (round_senders r ((i, t, r0, bs) # ms)) = (if r0 = r then insert i else id) (set (round_senders r ms))"
  by (simp add: round_senders_def)

lemma recv_step_senders:
  assumes "recv_step c pk env st (i, t, r0, bs) = Inr (st1, out)"
  shows "set (map fst (received st1 r)) \<subseteq> set (map fst (received st r)) \<union> (if r0 = r then {i} else {})"
  using recv_step_received [OF assms, of r] by auto

lemma recv_loop_put_needs:
  assumes "engine_inv c pk st" "recv_loop c pk env st ms = (st', outs, err)" "list_ex (is_put r) outs"
  shows "cc_f c + 1 \<le> int (card (set (map fst (received st r)) \<union> set (round_senders r ms)))"
  using assms
proof (induction ms arbitrary: st outs)
  case (Cons m ms)
  obtain i t r0 bs where m: "m = (i, t, r0, bs)" by (cases m rule: prod_cases4)
  let ?U = "set (map fst (received st r)) \<union> set (round_senders r (m # ms))"
  from Cons.prems(2) show ?case
  proof (cases rule: recv_loop_Cons_Inr)
    case died
    with Cons.prems show ?thesis by simp
  next
    case (cont st1 out outs1)
    from Cons.prems cont have inv1: "engine_inv c pk st1" by (blast intro: recv_step_engine_inv)
    have sub: "set (map fst (received st1 r)) \<union> set (round_senders r ms) \<subseteq> ?U"
      using recv_step_senders [OF cont(1) [unfolded m], of r] m
      by (auto simp: round_senders_Cons)
    have fin: "finite ?U" by simp
    show ?thesis
    proof (cases "is_put r out")
      case True
      from recv_step_put [OF cont(1) [unfolded m] True] have
        len: "int (length (received st1 r)) = cc_f c + 1" by blast
      from inv1 have "distinct (map fst (received st1 r))"
        by (simp add: engine_inv_def round_inv_def)
      with len have "cc_f c + 1 = int (card (set (map fst (received st1 r))))"
        using distinct_length_card by metis
      moreover have "card (set (map fst (received st1 r))) \<le> card ?U"
        using sub fin by (intro card_mono) auto
      ultimately show ?thesis by linarith
    next
      case False
      with Cons.prems cont have "list_ex (is_put r) outs1" by simp
      from Cons.IH [OF inv1 cont(2) this]
      have "cc_f c + 1 \<le> int (card (set (map fst (received st1 r)) \<union> set (round_senders r ms)))" .
      moreover have "card (set (map fst (received st1 r)) \<union> set (round_senders r ms)) \<le> card ?U"
        using sub fin by (intro card_mono) auto
      ultimately show ?thesis by linarith
    qed
  qed
qed simp

text \<open>C5: threshold necessity and duplicate immunity. A run of the receive loop from
  the initial state in which at most \<open>f\<close> distinct parties sent messages for round
  \<open>r\<close>, however many messages and duplicates they sent, never puts round \<open>r\<close>'s
  coin.\<close>

theorem recv_loop_needs_quorum:
  assumes "int (card (set (round_senders r ms))) \<le> cc_f c"
  shows "\<not> list_ex (is_put r) (fst (snd (recv_loop c pk env init_coin_state ms)))"
proof
  assume put: "list_ex (is_put r) (fst (snd (recv_loop c pk env init_coin_state ms)))"
  obtain st' outs err where run: "recv_loop c pk env init_coin_state ms = (st', outs, err)"
    by (cases "recv_loop c pk env init_coin_state ms")
  from put run have "list_ex (is_put r) outs" by simp
  from recv_loop_put_needs [OF engine_inv_init run this] assms show False by simp
qed

theorem recv_loop_needs_quorum_witness:
  "int (card (set (round_senders 0 [demo_share 0 0, demo_share 0 0, demo_share 2 5]))) \<le> cc_f demo_cfg \<and>
   \<not> list_ex (is_put 0)
       (fst (snd (recv_loop demo_cfg demo_pk toy_env init_coin_state
          [demo_share 0 0, demo_share 0 0, demo_share 2 5])))"
proof -
  have h: "int (card (set (round_senders 0 [demo_share 0 0, demo_share 0 0, demo_share 2 5]))) \<le>
      cc_f demo_cfg"
    by (simp add: round_senders_def demo_share_def demo_cfg_def)
  show ?thesis using h recv_loop_needs_quorum [OF h] by simp
qed

lemma recv_step_same_round:
  assumes "rproj r st1 = rproj r st2"
  shows "map_sum (\<lambda>(e, s). (e, rproj r s)) (\<lambda>(s, out). (rproj r s, out)) (recv_step c pk env st1 (i, t, r, bs)) =
         map_sum (\<lambda>(e, s). (e, rproj r s)) (\<lambda>(s, out). (rproj r s, out)) (recv_step c pk env st2 (i, t, r, bs))"
proof (cases "deserialize1 env bs")
  case None
  with assms show ?thesis by (simp add: recv_step_def)
next
  case (Some sig)
  show ?thesis
  proof (cases "py_in_range i (cc_n c) \<and> 0 \<le> r")
    case False
    with Some assms show ?thesis by (auto simp: recv_step_def)
  next
    case True
    with assms have rc: "received st1 r = received st2 r" and oq: "output_queue st1 r = output_queue st2 r"
      by (simp_all add: rproj_def)
    show ?thesis
      using True rc oq
      by (simp add: recv_step_ok_unfold [OF Some] resolve_round_def Let_def rproj_def
          split: option.split)
  qed
qed


lemma recv_step_other_round:
  assumes "recv_step c pk env st (i, t, r0, bs) = Inr (st', out)" "r0 \<noteq> r"
  shows "rproj r st' = rproj r st \<and> \<not> is_put r out"
  using assms by (cases rule: recv_step_Inr) (auto simp: rproj_def is_put_def)

lemma recv_step_same_round_Inr:
  assumes "rproj r st1 = rproj r st2" "recv_step c pk env st1 (i, t, r, bs) = Inr (st1', out)"
  obtains st2' where "recv_step c pk env st2 (i, t, r, bs) = Inr (st2', out)" "rproj r st2' = rproj r st1'"
  using recv_step_same_round [OF assms(1), of c pk env i t bs] assms(2) that
  by (cases "recv_step c pk env st2 (i, t, r, bs)") auto

lemma recv_loop_projection_gen:
  assumes "recv_loop c pk env st ms = (st', outs, None)" "rproj r st = rproj r st2"
  shows "\<exists>st2' outs2. recv_loop c pk env st2 (filter (\<lambda>m. msg_round m = r) ms) = (st2', outs2, None) \<and>
     rproj r st2' = rproj r st' \<and> filter (is_put r) outs2 = filter (is_put r) outs"
  using assms
proof (induction ms arbitrary: st st2 outs)
  case Nil
  then show ?case by simp
next
  case (Cons m ms)
  obtain i t r0 bs where m: "m = (i, t, r0, bs)" by (cases m rule: prod_cases4)
  from Cons.prems(1) show ?case
  proof (cases rule: recv_loop_Cons_Inr)
    case died
    then show ?thesis by simp
  next
    case (cont st1 out outs1)
    show ?thesis
    proof (cases "r0 = r")
      case True
      from recv_step_same_round_Inr [OF Cons.prems(2) cont(1) [unfolded m True]] obtain st21 where
        s2: "recv_step c pk env st2 (i, t, r, bs) = Inr (st21, out)" and p: "rproj r st21 = rproj r st1" .
      from Cons.IH [OF cont(2) p [symmetric]] obtain st2' outs2 where
        "recv_loop c pk env st21 (filter (\<lambda>m. msg_round m = r) ms) = (st2', outs2, None)"
        "rproj r st2' = rproj r st'" "filter (is_put r) outs2 = filter (is_put r) outs1" by blast
      with s2 m True cont show ?thesis by (auto simp: msg_round_def)
    next
      case False
      from recv_step_other_round [OF cont(1) [unfolded m] False] Cons.prems(2)
      have p: "rproj r st1 = rproj r st2" and np: "\<not> is_put r out" by auto
      from Cons.IH [OF cont(2) p] np m False cont show ?thesis by (auto simp: msg_round_def)
    qed
  qed
qed

lemma recv_step_forged:
  assumes "forged_share c pk env m"
  shows "\<exists>out. recv_step c pk env st m = Inr (st, out) \<and> silent out"
proof -
  obtain i t r bs where m: "m = (i, t, r, bs)" by (cases m rule: prod_cases4)
  with assms obtain s where ds: "deserialize1 env bs = Some s" and rng: "py_in_range i (cc_n c)"
    and r0: "0 \<le> r" and nv: "\<not> verify_share pk s i (round_digest c pk r)"
    by (auto simp: forged_share_def msg_ok_def split: option.splits)
  show ?thesis
    using nv by (simp add: m recv_step_ok_unfold [OF ds rng r0] silent_def)
qed

lemma recv_loop_append:
  "recv_loop c pk env st (xs @ ys) =
     (case recv_loop c pk env st xs of
        (st', outs, None) \<Rightarrow> (case recv_loop c pk env st' ys of (st'', outs', e) \<Rightarrow> (st'', outs @ outs', e))
      | (st', outs, Some e) \<Rightarrow> (st', outs, Some e))"
  by (induction xs arbitrary: st) (auto split: sum.splits prod.splits option.splits)


lemma recv_step_Inl:
  assumes step: "recv_step c pk env st (i, t, r, bs) = Inl (e, st')"
  obtains (early) "st' = st" "e = ShareDeserializeError \<or> e = SenderOutOfRange \<or> e = NegativeRound"
    "\<not> msg_ok c env (i, t, r, bs)"
  | (fatal) sig where "deserialize1 env bs = Some sig" "py_in_range i (cc_n c)" "0 \<le> r"
    "\<not> dict_has (received st r) i" "verify_share pk sig i (round_digest c pk r)"
    "int (length (received st r)) = cc_f c"
    "st' = st\<lparr>received := (received st)(r := received st r @ [(i, sig)])\<rparr>"
    "e = CombinedSignatureInvalid \<or> e = DigestIndexError \<or> e = OutputQueueFull"
proof (cases "msg_ok c env (i, t, r, bs)")
  case False
  with step show thesis
    by (intro early) (auto simp: msg_ok_def recv_step_def split: option.splits if_splits)
next
  case True
  then obtain sig where ds: "deserialize1 env bs = Some sig" and rng: "py_in_range i (cc_n c)"
    and r0: "0 \<le> r" by (auto simp: msg_ok_def)
  let ?st1 = "st\<lparr>received := (received st)(r := received st r @ [(i, sig)])\<rparr>"
  from step have c: "\<not> dict_has (received st r) i \<and> verify_share pk sig i (round_digest c pk r) \<and>
      int (length (received st r)) = cc_f c"
    by (auto simp: recv_step_ok_unfold [OF ds rng r0] split: if_splits)
  then have len: "int (length (received ?st1 r)) = cc_f c + 1" by simp
  from step c have "resolve_round c pk env ?st1 r (round_digest c pk r) = Inl (e, st')"
    by (simp add: recv_step_ok_unfold [OF ds rng r0])
  then have "st' = ?st1 \<and> (e = CombinedSignatureInvalid \<or> e = DigestIndexError \<or> e = OutputQueueFull)"
    by (auto simp: resolve_round_unfold [OF len] split: if_splits option.splits)
  with c show thesis by (intro fatal [OF ds rng r0]) auto
qed

lemma recv_step_Inl_engine_inv:
  assumes inv: "engine_inv c pk st" and step: "recv_step c pk env st (i, t, r, bs) = Inl (e, st')"
  shows "engine_inv c pk st'"
  using step
proof (cases rule: recv_step_Inl)
  case early
  with inv show ?thesis by simp
next
  case (fatal sig)
  have "round_inv c pk st' r'" for r'
    using inv fatal by (cases "r' = r") (auto simp: engine_inv_def round_inv_def dict_has_def)
  then show ?thesis by (simp add: engine_inv_def)
qed



lemma recv_step_queue:
  assumes "recv_step c pk env st (i, t, r0, bs) = Inr (st', out)"
  shows "output_queue st' r = output_queue st r @ put_bits r [out]"
  using assms by (cases rule: recv_step_Inr) auto

lemma recv_loop_queue:
  assumes "recv_loop c pk env st ms = (st', outs, None)"
  shows "output_queue st' r = output_queue st r @ put_bits r outs"
  using assms
proof (induction ms arbitrary: st outs)
  case (Cons m ms)
  obtain i t r0 bs where m: "m = (i, t, r0, bs)" by (cases m rule: prod_cases4)
  from Cons.prems show ?case
  proof (cases rule: recv_loop_Cons_Inr)
    case died
    then show ?thesis by simp
  next
    case (cont st1 out outs1)
    from recv_step_queue [OF cont(1) [unfolded m], of r] Cons.IH [OF cont(2)] cont(3)
    show ?thesis by (cases out) auto
  qed
qed simp

lemma put_bits_in: "CoinPut r b \<in> set outs \<Longrightarrow> b \<in> set (put_bits r outs)"
  by (induction r outs rule: put_bits.induct) auto

lemma put_bits_set: "b \<in> set (put_bits r outs) \<Longrightarrow> CoinPut r b \<in> set outs"
  by (induction r outs rule: put_bits.induct) (auto split: if_splits)

lemma valid_shares_Cons:
  "valid_shares c pk env r ((i, t, r0, bs) # ms) =
     (if r0 \<noteq> r then [] else
       (case deserialize1 env bs of None \<Rightarrow> []
        | Some s \<Rightarrow> if verify_share pk s i (round_digest c pk r) then [(i, s)] else [])) @
     valid_shares c pk env r ms"
  by (simp add: valid_shares_def)

lemma recv_step_ledger:
  assumes "recv_step c pk env st (i, t, r0, bs) = Inr (st', out)"
  shows "received st' r = first_shares (received st r) (valid_shares c pk env r [(i, t, r0, bs)])"
  using assms
proof (cases rule: recv_step_Inr)
  case (redundant sig)
  then show ?thesis by (auto simp: valid_shares_def dict_has_def)
next
  case (failed sig)
  then show ?thesis by (auto simp: valid_shares_def)
next
  case (stored sig)
  then show ?thesis by (auto simp: valid_shares_def dict_has_def)
next
  case (put sig b)
  then show ?thesis by (auto simp: valid_shares_def dict_has_def)
qed

lemma first_shares_append: "first_shares acc (xs @ ys) = first_shares (first_shares acc xs) ys"
  by (induction acc xs rule: first_shares.induct) auto

lemma recv_loop_ledger:
  assumes "recv_loop c pk env st ms = (st', outs, None)"
  shows "received st' r = first_shares (received st r) (valid_shares c pk env r ms)"
  using assms
proof (induction ms arbitrary: st outs)
  case Nil
  then show ?case by (simp add: valid_shares_def)
next
  case (Cons m ms)
  obtain i t r0 bs where m: "m = (i, t, r0, bs)" by (cases m rule: prod_cases4)
  from Cons.prems show ?case
  proof (cases rule: recv_loop_Cons_Inr)
    case died
    then show ?thesis by simp
  next
    case (cont st1 out outs1)
    have "valid_shares c pk env r (m # ms) = valid_shares c pk env r [m] @ valid_shares c pk env r ms"
      by (simp add: valid_shares_def)
    with recv_step_ledger [OF cont(1) [unfolded m], of r] Cons.IH [OF cont(2)] m
    show ?thesis by (simp add: first_shares_append)
  qed
qed


lemma first_shares_prefix: "\<exists>ys. first_shares acc xs = acc @ ys"
proof (induction acc xs rule: first_shares.induct)
  case (2 acc i s xs)
  show ?case
  proof (cases "i \<in> set (map fst acc)")
    case True
    with 2 show ?thesis by simp
  next
    case False
    with 2 obtain ys where "first_shares (acc @ [(i, s)]) xs = (acc @ [(i, s)]) @ ys" by blast
    with False show ?thesis by auto
  qed
qed simp

lemma recv_step_put_bit:
  assumes "recv_step c pk env st (i, t, r0, bs) = Inr (st', CoinPut r b)"
  shows "int (length (received st' r)) = cc_f c + 1 \<and>
    coin_bit env (combine_shares pk (received st' r)) = Some b"
  using assms by (cases rule: recv_step_Inr) auto

lemma recv_loop_put_selection:
  assumes "recv_loop c pk env st ms = (st', outs, None)" "CoinPut r b \<in> set outs"
  shows "\<exists>L. int (length L) = cc_f c + 1 \<and> coin_bit env (combine_shares pk L) = Some b \<and>
    L = take (nat (cc_f c + 1)) (received st' r)"
  using assms
proof (induction ms arbitrary: st outs)
  case (Cons m ms)
  obtain i t r0 bs where m: "m = (i, t, r0, bs)" by (cases m rule: prod_cases4)
  from Cons.prems(1) show ?case
  proof (cases rule: recv_loop_Cons_Inr)
    case died
    with Cons.prems show ?thesis by simp
  next
    case (cont st1 out outs1)
    show ?thesis
    proof (cases "out = CoinPut r b")
      case True
      from recv_step_put_bit [OF cont(1) [unfolded m True]] have
        len: "int (length (received st1 r)) = cc_f c + 1"
        and cb: "coin_bit env (combine_shares pk (received st1 r)) = Some b" by auto
      from recv_loop_ledger [OF cont(2), of r] first_shares_prefix obtain ys where
        "received st' r = received st1 r @ ys" by metis
      with len have "received st1 r = take (nat (cc_f c + 1)) (received st' r)" by simp
      with len cb show ?thesis by blast
    next
      case False
      with Cons.prems(2) cont(3) have "CoinPut r b \<in> set outs1" by simp
      from Cons.IH [OF cont(2) this] show ?thesis .
    qed
  qed
qed simp

subsection \<open>Properties of the receive task\<close>

text \<open>C6: with a configuration that passed the constructor's asserts and a sound
  threshold scheme, an iteration of \<^verbatim>\<open>_recv\<close> on a well-formed message (it
  deserialises, its sender is in \<^verbatim>\<open>range(n)\<close>, its round is not negative) raises
  nothing: the fatal assert on the combined signature (line 74), the index of line 77
  and the \<^verbatim>\<open>QueueFull\<close> of line 80 are unreachable from a state satisfying
  the ledger invariant.\<close>

theorem recv_step_no_fatal:
  assumes "engine_inv c pk st" "config_ok c pk" "tbls_sound pk tsig" "digest_nonempty env"
    "msg_ok c env m"
  shows "\<exists>st' out. recv_step c pk env st m = Inr (st', out)"
proof -
  obtain i t r bs where "m = (i, t, r, bs)" by (cases m rule: prod_cases4)
  with assms recv_step_total_tuple show ?thesis by blast
qed

theorem recv_step_no_fatal_witness:
  "\<exists>st' out. recv_step demo_cfg demo_pk toy_env init_coin_state (demo_share 0 0) = Inr (st', out)"
proof (rule recv_step_no_fatal)
  show "engine_inv demo_cfg demo_pk init_coin_state" by (rule engine_inv_init)
  show "config_ok demo_cfg demo_pk" by (simp add: config_ok_def demo_cfg_def demo_pk_def toy_pk_def)
  show "tbls_sound demo_pk (\<lambda>h. h)" unfolding demo_pk_def by (rule toy_pk_sound) simp
  show "digest_nonempty toy_env" by (rule toy_env_digest)
  show "msg_ok demo_cfg toy_env (demo_share 0 0)" by code_simp
qed

text \<open>C8: the combination branch runs at most once per round: a run of the receive
  loop puts round \<open>r\<close>'s coin at most once, and not at all when the round's ledger
  had already reached \<open>f + 1\<close> shares.\<close>

theorem recv_loop_put_once:
  "length (filter (is_put r) (fst (snd (recv_loop c pk env st ms)))) \<le>
     (if cc_f c + 1 \<le> int (length (received st r)) then 0 else 1)"
  using recv_loop_put_count [of c pk env st ms] by (cases "recv_loop c pk env st ms") auto

text \<open>C11: rounds are independent. If a run of the receive loop raises nothing, its
  effect on round \<open>r\<close> (ledger, queue, coins put) is that of the run on round
  \<open>r\<close>'s messages alone, which raises nothing either.\<close>

theorem recv_loop_round_independent:
  assumes "snd (snd (recv_loop c pk env st ms)) = None"
  shows "(case (recv_loop c pk env st ms, recv_loop c pk env st (filter (\<lambda>m. msg_round m = r) ms)) of
           ((st1, outs1, _), (st2, outs2, e2)) \<Rightarrow>
             e2 = None \<and> received st2 r = received st1 r \<and> output_queue st2 r = output_queue st1 r \<and>
             filter (is_put r) outs2 = filter (is_put r) outs1)"
proof -
  obtain st1 outs1 where run: "recv_loop c pk env st ms = (st1, outs1, None)"
    using assms by (cases "recv_loop c pk env st ms") auto
  from recv_loop_projection_gen [OF run refl, of r] run show ?thesis by (auto simp: rproj_def)
qed

theorem recv_loop_round_independent_witness:
  "case (recv_loop demo_cfg demo_pk toy_env init_coin_state
           [demo_share 0 5, demo_share 0 0, demo_share 1 5, demo_share 1 0],
         recv_loop demo_cfg demo_pk toy_env init_coin_state
           (filter (\<lambda>m. msg_round m = 0) [demo_share 0 5, demo_share 0 0, demo_share 1 5, demo_share 1 0])) of
     ((st1, outs1, _), (st2, outs2, e2)) \<Rightarrow>
       e2 = None \<and> received st2 0 = received st1 0 \<and> output_queue st2 0 = output_queue st1 0 \<and>
       filter (is_put 0) outs2 = filter (is_put 0) outs1"
proof (rule recv_loop_round_independent)
  show "snd (snd (recv_loop demo_cfg demo_pk toy_env init_coin_state
      [demo_share 0 5, demo_share 0 0, demo_share 1 5, demo_share 1 0])) = None"
    by code_simp
qed

text \<open>C12: Byzantine tolerance. A forged share (well-formed, but not verifying for its
  sender on its round's digest) changes nothing: inserted anywhere into a stream, the
  final state, the error and every outcome but its own silent one are those of the
  stream without it.\<close>

theorem recv_loop_forged_ignored:
  assumes "forged_share c pk env m"
  shows "(case (recv_loop c pk env st (ms1 @ m # ms2), recv_loop c pk env st (ms1 @ ms2)) of
           ((st1, outs1, e1), (st2, outs2, e2)) \<Rightarrow>
             st1 = st2 \<and> e1 = e2 \<and> filter (Not \<circ> silent) outs1 = filter (Not \<circ> silent) outs2)"
proof -
  obtain sta outsa ea where a: "recv_loop c pk env st ms1 = (sta, outsa, ea)"
    by (cases "recv_loop c pk env st ms1")
  show ?thesis
  proof (cases ea)
    case None
    from recv_step_forged [OF assms, of sta] obtain out where
      "recv_step c pk env sta m = Inr (sta, out)" "silent out" by blast
    with a None show ?thesis
      by (simp add: recv_loop_append split: prod.splits)
  next
    case (Some e)
    with a show ?thesis by (simp add: recv_loop_append)
  qed
qed

theorem recv_loop_forged_ignored_witness:
  "case (recv_loop demo_cfg demo_pk toy_env init_coin_state
           ([demo_share 0 0] @ (3, ''COIN'', 0, [99]) # [demo_share 1 0]),
         recv_loop demo_cfg demo_pk toy_env init_coin_state ([demo_share 0 0] @ [demo_share 1 0])) of
     ((st1, outs1, e1), (st2, outs2, e2)) \<Rightarrow>
       st1 = st2 \<and> e1 = e2 \<and> filter (Not \<circ> silent) outs1 = filter (Not \<circ> silent) outs2"
proof (rule recv_loop_forged_ignored)
  show "forged_share demo_cfg demo_pk toy_env (3, ''COIN'', 0, [99])" by code_simp
qed

text \<open>C13: a message that is not well formed (bytes that do not deserialise, a sender
  outside \<^verbatim>\<open>range(n)\<close>, a negative round) raises out of the loop body
  (line 41, or the asserts of lines 45 and 46) and ends the receive task: no later
  message is processed. The spec asks that such messages be ignored.\<close>

theorem recv_loop_malformed_stops:
  assumes "\<not> msg_ok c env m"
  shows "\<exists>e. recv_loop c pk env st (m # ms) = (st, [], Some e) \<and>
    e \<in> {ShareDeserializeError, SenderOutOfRange, NegativeRound}"
proof -
  obtain i t r bs where m: "m = (i, t, r, bs)" by (cases m rule: prod_cases4)
  with assms show ?thesis
    by (auto simp: msg_ok_def recv_step_def split: option.splits)
qed

theorem recv_loop_malformed_stops_witness:
  "\<exists>e. recv_loop demo_cfg demo_pk toy_env init_coin_state
         ((7, ''COIN'', 0, [1]) # [demo_share 0 0, demo_share 1 0]) = (init_coin_state, [], Some e) \<and>
       e \<in> {ShareDeserializeError, SenderOutOfRange, NegativeRound}"
proof (rule recv_loop_malformed_stops)
  show "\<not> msg_ok demo_cfg toy_env (7, ''COIN'', 0, [1])" by code_simp
qed

text \<open>C17: which shares are combined. In a run of the receive loop from the initial
  state that raises nothing, the coin of round \<open>r\<close> is derived from the combination
  of exactly the first \<open>f + 1\<close> of the round's valid shares in arrival order, one per
  sender (a sender's later shares dropped, not overwriting): the selection rule the spec
  leaves open is insertion order, for any threshold scheme.\<close>

theorem coin_from_first_valid_shares:
  assumes "snd (snd (recv_loop c pk env init_coin_state ms)) = None"
    "CoinPut r b \<in> set (fst (snd (recv_loop c pk env init_coin_state ms)))"
  shows "coin_bit env (combine_shares pk (take (nat (cc_f c + 1)) (first_shares [] (valid_shares c pk env r ms)))) = Some b"
proof -
  obtain st' outs where run: "recv_loop c pk env init_coin_state ms = (st', outs, None)"
    using assms(1) by (cases "recv_loop c pk env init_coin_state ms") auto
  with assms(2) have "CoinPut r b \<in> set outs" by simp
  from recv_loop_put_selection [OF run this] recv_loop_ledger [OF run, of r] show ?thesis
    by (auto simp: init_coin_state_def)
qed

theorem coin_from_first_valid_shares_witness:
  "coin_bit toy_env (combine_shares demo_pk (take (nat (cc_f demo_cfg + 1))
     (first_shares [] (valid_shares demo_cfg demo_pk toy_env 0
        [demo_share 2 0, (3, ''COIN'', 0, [99]), demo_share 2 0, demo_share 0 5, demo_share 1 0])))) = Some 1"
proof (rule coin_from_first_valid_shares)
  show "snd (snd (recv_loop demo_cfg demo_pk toy_env init_coin_state
      [demo_share 2 0, (3, ''COIN'', 0, [99]), demo_share 2 0, demo_share 0 5, demo_share 1 0])) = None"
    by code_simp
  show "CoinPut 0 1 \<in> set (fst (snd (recv_loop demo_cfg demo_pk toy_env init_coin_state
      [demo_share 2 0, (3, ''COIN'', 0, [99]), demo_share 2 0, demo_share 0 5, demo_share 1 0])))"
    by code_simp
qed

end
