(* ===== verification/Coin_Handle.thy ===== *)
theory Coin_Handle
  imports Coin_Engine
begin

text \<open>
  The calling side of \<^verbatim>\<open>shared_coin\<close> and the whole coin instance as a system
  of concurrent tasks. \<open>shared_coin\<close> models the two configuration asserts of
  lines 31 and 32 and the state they create (lines 33 and 34, the receive task of line
  82 in state \<open>Running\<close>). \<^verbatim>\<open>get_coin\<close> (lines 84 to 97) runs in two steps:
  \<open>get_coin_call\<close> broadcasts the caller's share and suspends it on
  \<^verbatim>\<open>output_queue[round].get()\<close> (\<open>waiting\<close>), \<open>get_coin_wake\<close> resumes
  one suspended caller of a round whose queue holds an item, removing the item, as
  \<^verbatim>\<open>Queue.get\<close> does, and records the returned bit. \<open>recv_deliver\<close> runs one
  iteration of \<^verbatim>\<open>_recv\<close> on a message from the network (any message: senders
  are untrusted); an exception ends the receive task (\<open>Died\<close>).
  A message that arrives once the task has ended is consumed by nobody: the step leaves
  the state as it is.  \<open>recv_cancel\<close> is \<^verbatim>\<open>recv_task.cancel()\<close> (line 117), a no-op
  on a task that has already ended, as \<^verbatim>\<open>Task.cancel()\<close> is. The scheduler may
  run these in any order: \<open>sys_step\<close> takes one event, \<open>reachable\<close> is the
  least set of states that holds the states \<open>shared_coin\<close> returns and is closed
  under steps, and \<open>sys_run\<close> runs a list of events (for the witnesses).
\<close>

datatype recv_status = Running | Died recv_error | Cancelled

record 'sig coin_sys =
  engine :: "'sig coin_state"
  recv_status :: recv_status
  sent :: "(string \<times> round \<times> bytes) list"
  waiting :: "round list"
  returned :: "(round \<times> nat) list"

datatype setup_error = ThresholdMismatch | PartyCountMismatch

datatype coin_event = Call round | Deliver coin_msg | Wake round | Cancel

definition shared_coin :: "coin_config \<Rightarrow> ('sig, 'h) tbls_pk \<Rightarrow> setup_error + 'sig coin_sys" where
  "shared_coin c pk =
     (if pk_k pk \<noteq> cc_f c + 1 then Inl ThresholdMismatch
      else if pk_l pk \<noteq> cc_n c then Inl PartyCountMismatch
      else Inr \<lparr>engine = init_coin_state, recv_status = Running, sent = [], waiting = [],
                returned = []\<rparr>)"

definition coin_broadcast_msg ::
  "coin_config \<Rightarrow> ('sig, 'h) tbls_pk \<Rightarrow> ('sig, 'h) tbls_sk \<Rightarrow> 'sig tbls_env \<Rightarrow> round
   \<Rightarrow> string \<times> round \<times> bytes" where
  "coin_broadcast_msg c pk sk env r = (''COIN'', r, serialize env (sk_sign sk (round_digest c pk r)))"

definition get_coin_call ::
  "coin_config \<Rightarrow> ('sig, 'h) tbls_pk \<Rightarrow> ('sig, 'h) tbls_sk \<Rightarrow> 'sig tbls_env \<Rightarrow> 'sig coin_sys
   \<Rightarrow> round \<Rightarrow> 'sig coin_sys" where
  "get_coin_call c pk sk env s r =
     s\<lparr>sent := sent s @ [coin_broadcast_msg c pk sk env r], waiting := waiting s @ [r]\<rparr>"

definition get_coin_wake :: "'sig coin_sys \<Rightarrow> round \<Rightarrow> ('sig coin_sys \<times> nat) option" where
  "get_coin_wake s r =
     (if r \<notin> set (waiting s) then None
      else case queue_get (output_queue (engine s) r) of
        None \<Rightarrow> None
      | Some (b, q) \<Rightarrow>
          Some (s\<lparr>engine := (engine s)\<lparr>output_queue := (output_queue (engine s))(r := q)\<rparr>,
                  waiting := remove1 r (waiting s), returned := returned s @ [(r, b)]\<rparr>, b))"

definition recv_deliver ::
  "coin_config \<Rightarrow> ('sig, 'h) tbls_pk \<Rightarrow> 'sig tbls_env \<Rightarrow> 'sig coin_sys \<Rightarrow> coin_msg
   \<Rightarrow> 'sig coin_sys option" where
  "recv_deliver c pk env s m =
     (if recv_status s \<noteq> Running then Some s
      else case recv_step c pk env (engine s) m of
        Inl (e, st') \<Rightarrow> Some (s\<lparr>engine := st', recv_status := Died e\<rparr>)
      | Inr (st', _) \<Rightarrow> Some (s\<lparr>engine := st'\<rparr>))"

definition recv_cancel :: "'sig coin_sys \<Rightarrow> 'sig coin_sys option" where
  "recv_cancel s = (if recv_status s = Running then Some (s\<lparr>recv_status := Cancelled\<rparr>) else Some s)"

fun sys_step ::
  "coin_config \<Rightarrow> ('sig, 'h) tbls_pk \<Rightarrow> ('sig, 'h) tbls_sk \<Rightarrow> 'sig tbls_env \<Rightarrow> 'sig coin_sys
   \<Rightarrow> coin_event \<Rightarrow> 'sig coin_sys option" where
  "sys_step c pk sk env s (Call r) = Some (get_coin_call c pk sk env s r)"
| "sys_step c pk sk env s (Deliver m) = recv_deliver c pk env s m"
| "sys_step c pk sk env s (Wake r) = map_option fst (get_coin_wake s r)"
| "sys_step c pk sk env s Cancel = recv_cancel s"

fun sys_run ::
  "coin_config \<Rightarrow> ('sig, 'h) tbls_pk \<Rightarrow> ('sig, 'h) tbls_sk \<Rightarrow> 'sig tbls_env \<Rightarrow> 'sig coin_sys
   \<Rightarrow> coin_event list \<Rightarrow> 'sig coin_sys option" where
  "sys_run c pk sk env s [] = Some s"
| "sys_run c pk sk env s (e # es) =
     (case sys_step c pk sk env s e of None \<Rightarrow> None | Some s' \<Rightarrow> sys_run c pk sk env s' es)"

inductive reachable ::
  "coin_config \<Rightarrow> ('sig, 'h) tbls_pk \<Rightarrow> ('sig, 'h) tbls_sk \<Rightarrow> 'sig tbls_env \<Rightarrow> 'sig coin_sys \<Rightarrow> bool"
  for c pk sk env where
  init: "shared_coin c pk = Inr s \<Longrightarrow> reachable c pk sk env s"
| step: "reachable c pk sk env s \<Longrightarrow> sys_step c pk sk env s e = Some s' \<Longrightarrow> reachable c pk sk env s'"

subsection \<open>Invariants of the system\<close>

definition delivered :: "'sig coin_sys \<Rightarrow> round \<Rightarrow> nat" where
  "delivered s r = length (output_queue (engine s) r) + length (filter (\<lambda>p. fst p = r) (returned s))"

definition sys_inv :: "coin_config \<Rightarrow> ('sig, 'h) tbls_pk \<Rightarrow> 'sig coin_sys \<Rightarrow> bool" where
  "sys_inv c pk s \<longleftrightarrow>
     config_ok c pk \<and> engine_inv c pk (engine s) \<and>
     (\<forall>r. delivered s r \<le> 1 \<and> (int (length (received (engine s) r)) \<le> cc_f c \<longrightarrow> delivered s r = 0))"

definition values_ideal ::
  "coin_config \<Rightarrow> ('sig, 'h) tbls_pk \<Rightarrow> 'sig tbls_env \<Rightarrow> ('h \<Rightarrow> 'sig) \<Rightarrow> 'sig coin_sys \<Rightarrow> bool" where
  "values_ideal c pk env tsig s \<longleftrightarrow>
     (\<forall>(r, b) \<in> set (returned s). ideal_coin env pk tsig (cc_sid c) r = Some b) \<and>
     (\<forall>r. \<forall>b \<in> set (output_queue (engine s) r). ideal_coin env pk tsig (cc_sid c) r = Some b)"

definition byzantine_error :: "recv_error \<Rightarrow> bool" where
  "byzantine_error e \<longleftrightarrow> e = ShareDeserializeError \<or> e = SenderOutOfRange \<or> e = NegativeRound"

definition honest_msgs ::
  "coin_config \<Rightarrow> ('sig, 'h) tbls_pk \<Rightarrow> (party \<Rightarrow> ('sig, 'h) tbls_sk) \<Rightarrow> 'sig tbls_env \<Rightarrow> round
   \<Rightarrow> party list \<Rightarrow> coin_msg list" where
  "honest_msgs c pk sks env r P = map (\<lambda>i. (i, coin_broadcast_msg c pk (sks i) env r)) P"

subsection \<open>The four-party instance\<close>

definition demo_init :: "byte coin_sys" where
  "demo_init = \<lparr>engine = init_coin_state, recv_status = Running, sent = [], waiting = [], returned = []\<rparr>"

definition demo_events :: "coin_event list" where
  "demo_events = [Call 0, Deliver (demo_share 0 0), Deliver (demo_share 0 0), Deliver (demo_share 1 0),
     Wake 0, Call 0]"

subsection \<open>Preservation of the invariants\<close>

lemma sys_inv_engine_update:
  assumes "sys_inv c pk s" "engine_inv c pk st'"
    "\<And>r. length (received (engine s) r) \<le> length (received st' r)"
    "\<And>r. output_queue st' r = output_queue (engine s) r \<or>
       (output_queue (engine s) r = [] \<and> int (length (received (engine s) r)) = cc_f c \<and>
        int (length (received st' r)) = cc_f c + 1 \<and> (\<exists>b. output_queue st' r = [b]))"
    "\<And>r. int (length (received (engine s) r)) < cc_f c \<Longrightarrow>
       int (length (received st' r)) \<le> cc_f c"
  shows "sys_inv c pk (s\<lparr>engine := st'\<rparr>)"
  unfolding sys_inv_def
proof (intro conjI allI impI)
  show "config_ok c pk" "engine_inv c pk (engine (s\<lparr>engine := st'\<rparr>))"
    using assms(1,2) by (simp_all add: sys_inv_def)
next
  fix r
  from assms(1) have d: "delivered s r \<le> 1"
    and z: "int (length (received (engine s) r)) \<le> cc_f c \<Longrightarrow> delivered s r = 0"
    by (auto simp: sys_inv_def)
  from assms(4) [of r] assms(5) [of r] assms(3) [of r] d z
  show "delivered (s\<lparr>engine := st'\<rparr>) r \<le> 1"
    and "int (length (received (engine (s\<lparr>engine := st'\<rparr>)) r)) \<le> cc_f c \<Longrightarrow>
      delivered (s\<lparr>engine := st'\<rparr>) r = 0"
    by (auto simp: delivered_def)
qed


lemma sys_inv_status [simp]: "sys_inv c pk (s\<lparr>recv_status := x\<rparr>) = sys_inv c pk s"
  by (simp add: sys_inv_def delivered_def)

lemma recv_deliver_sys_inv:
  assumes inv: "sys_inv c pk s" and d: "recv_deliver c pk env s m = Some s'"
  shows "sys_inv c pk s'"
proof -
  obtain i t r bs where m: "m = (i, t, r, bs)" by (cases m rule: prod_cases4)
  from inv have ei: "engine_inv c pk (engine s)" by (simp add: sys_inv_def)
  show ?thesis
  proof (cases "recv_status s = Running")
    case False
    with d have "s' = s" by (simp add: recv_deliver_def)
    with inv show ?thesis by simp
  next
    case run: True
    show ?thesis
  proof (cases "recv_step c pk env (engine s) m")
    case (Inl a)
    obtain e st' where a: "a = (e, st')" by (cases a)
    with Inl d run have s': "s' = s\<lparr>engine := st', recv_status := Died e\<rparr>"
      by (auto simp: recv_deliver_def split: if_splits)
    from Inl a m have step: "recv_step c pk env (engine s) (i, t, r, bs) = Inl (e, st')" by simp
    have "sys_inv c pk (s\<lparr>engine := st'\<rparr>)"
      using step
    proof (cases rule: recv_step_Inl)
      case early
      with inv show ?thesis by simp
    next
      case (fatal sig)
      show ?thesis
        using inv recv_step_Inl_engine_inv [OF ei step] fatal
        by (intro sys_inv_engine_update) auto
    qed
    with s' show ?thesis by (metis sys_inv_status)
  next
    case (Inr a)
    obtain st' out where a: "a = (st', out)" by (cases a)
    with Inr d run have s': "s' = s\<lparr>engine := st'\<rparr>"
      by (auto simp: recv_deliver_def split: if_splits)
    from Inr a m have step: "recv_step c pk env (engine s) (i, t, r, bs) = Inr (st', out)" by simp
    have ei': "engine_inv c pk st'" using recv_step_engine_inv [OF ei] Inr a by blast
    from step show ?thesis
    proof (cases rule: recv_step_Inr)
      case redundant
      with inv s' show ?thesis by simp
    next
      case failed
      with inv s' show ?thesis by simp
    next
      case (stored sig)
      show ?thesis
        unfolding s' using stored by (intro sys_inv_engine_update [OF inv ei']) auto
    next
      case (put sig b)
      show ?thesis
        unfolding s' using put by (intro sys_inv_engine_update [OF inv ei']) auto
    qed
  qed
  qed
qed

lemma get_coin_wake_sys_inv:
  assumes inv: "sys_inv c pk s" and w: "get_coin_wake s r = Some (s', b)"
  shows "sys_inv c pk s'"
proof -
  from w obtain q where q: "output_queue (engine s) r = b # q" and
    s': "s' = s\<lparr>engine := (engine s)\<lparr>output_queue := (output_queue (engine s))(r := q)\<rparr>,
            waiting := remove1 r (waiting s), returned := returned s @ [(r, b)]\<rparr>"
    by (auto simp: get_coin_wake_def queue_get_def split: if_splits list.splits)
  have "delivered s' r' = delivered s r'" for r'
    using q s' by (cases "r' = r") (auto simp: delivered_def)
  moreover have "engine_inv c pk (engine s')"
  proof -
    have "round_inv c pk (engine s') r'" for r'
      using inv q s' by (cases "r' = r") (auto simp: sys_inv_def engine_inv_def round_inv_def)
    then show ?thesis by (simp add: engine_inv_def)
  qed
  ultimately show ?thesis using inv s' by (simp add: sys_inv_def)
qed

lemma sys_step_sys_inv:
  assumes "sys_inv c pk s" "sys_step c pk sk env s e = Some s'"
  shows "sys_inv c pk s'"
proof (cases e)
  case (Call r)
  with assms show ?thesis by (auto simp: get_coin_call_def sys_inv_def delivered_def)
next
  case (Deliver m)
  with assms show ?thesis by (auto intro: recv_deliver_sys_inv)
next
  case (Wake r)
  with assms show ?thesis by (auto intro: get_coin_wake_sys_inv)
next
  case Cancel
  with assms show ?thesis by (auto simp: recv_cancel_def split: if_splits)
qed

lemma reachable_sys_inv_aux: "reachable c pk sk env s \<Longrightarrow> sys_inv c pk s"
proof (induction rule: reachable.induct)
  case (init s)
  then show ?case
    by (auto simp: shared_coin_def sys_inv_def config_ok_def delivered_def engine_inv_init
        split: if_splits)
next
  case (step s e s')
  then show ?case by (blast intro: sys_step_sys_inv)
qed


lemma sys_step_values_ideal:
  assumes inv: "sys_inv c pk s" and vi: "values_ideal c pk env tsig s" and snd: "tbls_sound pk tsig"
    and st: "sys_step c pk sk env s e = Some s'"
  shows "values_ideal c pk env tsig s'"
proof (cases e)
  case (Call r)
  with vi st show ?thesis by (auto simp: get_coin_call_def values_ideal_def)
next
  case Cancel
  with vi st show ?thesis by (auto simp: recv_cancel_def values_ideal_def split: if_splits)
next
  case (Wake r)
  with st obtain b where w: "get_coin_wake s r = Some (s', b)" by auto
  then obtain q where q: "output_queue (engine s) r = b # q" and
    s': "s' = s\<lparr>engine := (engine s)\<lparr>output_queue := (output_queue (engine s))(r := q)\<rparr>,
            waiting := remove1 r (waiting s), returned := returned s @ [(r, b)]\<rparr>"
    by (auto simp: get_coin_wake_def queue_get_def split: if_splits list.splits)
  from vi q s' show ?thesis by (auto simp: values_ideal_def)
next
  case (Deliver m)
  obtain i t r bs where m: "m = (i, t, r, bs)" by (cases m rule: prod_cases4)
  from inv have ei: "engine_inv c pk (engine s)" and cfg: "config_ok c pk"
    by (simp_all add: sys_inv_def)
  show ?thesis
  proof (cases "recv_status s = Running")
    case False
    with Deliver st have "s' = s" by (simp add: recv_deliver_def)
    with vi show ?thesis by simp
  next
    case run: True
    show ?thesis
  proof (cases "recv_step c pk env (engine s) m")
    case (Inl a)
    obtain e' st' where a: "a = (e', st')" by (cases a)
    with Inl Deliver st run have s': "s' = s\<lparr>engine := st', recv_status := Died e'\<rparr>"
      by (auto simp: recv_deliver_def split: if_splits)
    from Inl a m have "recv_step c pk env (engine s) (i, t, r, bs) = Inl (e', st')" by simp
    then have "output_queue st' = output_queue (engine s)" by (cases rule: recv_step_Inl) auto
    with vi s' show ?thesis by (simp add: values_ideal_def)
  next
    case (Inr a)
    obtain st' out where a: "a = (st', out)" by (cases a)
    with Inr Deliver st run have s': "s' = s\<lparr>engine := st'\<rparr>"
      by (auto simp: recv_deliver_def split: if_splits)
    from Inr a m have step: "recv_step c pk env (engine s) (i, t, r, bs) = Inr (st', out)" by simp
    from step show ?thesis
    proof (cases rule: recv_step_Inr)
      case (put sig b)
      from recv_step_put_ideal_tuple [OF ei cfg snd step [unfolded put(12)]]
      have "ideal_coin env pk tsig (cc_sid c) r = Some b" by simp
      with vi s' put show ?thesis by (auto simp: values_ideal_def)
    qed (use vi s' in \<open>auto simp: values_ideal_def\<close>)
  qed
  qed
qed

lemma reachable_values_ideal:
  "reachable c pk sk env s \<Longrightarrow> tbls_sound pk tsig \<Longrightarrow> values_ideal c pk env tsig s"
proof (induction rule: reachable.induct)
  case (init s)
  then show ?case by (auto simp: shared_coin_def values_ideal_def split: if_splits)
next
  case (step s e s')
  then show ?case by (blast intro: sys_step_values_ideal reachable_sys_inv_aux)
qed


lemma sys_step_status:
  assumes inv: "sys_inv c pk s" and snd: "tbls_sound pk tsig" and dg: "digest_nonempty env"
    and ok: "\<forall>e. recv_status s = Died e \<longrightarrow> byzantine_error e"
    and st: "sys_step c pk sk env s ev = Some s'"
  shows "\<forall>e. recv_status s' = Died e \<longrightarrow> byzantine_error e"
proof (cases ev)
  case (Deliver m)
  obtain i t r bs where m: "m = (i, t, r, bs)" by (cases m rule: prod_cases4)
  from inv have ei: "engine_inv c pk (engine s)" and cfg: "config_ok c pk"
    by (simp_all add: sys_inv_def)
  show ?thesis
  proof (cases "recv_status s = Running")
    case False
    with Deliver st have "s' = s" by (simp add: recv_deliver_def)
    with ok show ?thesis by simp
  next
    case run: True
    show ?thesis
  proof (cases "recv_step c pk env (engine s) m")
    case (Inl a)
    obtain e' st' where a: "a = (e', st')" by (cases a)
    with Inl Deliver st run have s': "s' = s\<lparr>engine := st', recv_status := Died e'\<rparr>"
      by (auto simp: recv_deliver_def split: if_splits)
    from Inl a m have step: "recv_step c pk env (engine s) (i, t, r, bs) = Inl (e', st')" by simp
    have "byzantine_error e'"
      using step
    proof (cases rule: recv_step_Inl)
      case early
      then show ?thesis by (auto simp: byzantine_error_def)
    next
      case fatal
      then have "msg_ok c env (i, t, r, bs)" by (simp add: msg_ok_def)
      from recv_step_total_tuple [OF ei cfg snd dg this] step show ?thesis by simp
    qed
    with s' show ?thesis by simp
  next
    case (Inr a)
    with Deliver st ok show ?thesis by (auto simp: recv_deliver_def split: if_splits prod.splits)
  qed
  qed
qed (use st ok in \<open>auto simp: get_coin_call_def recv_cancel_def get_coin_wake_def queue_get_def
       split: if_splits option.splits list.splits prod.splits\<close>)

lemma reachable_status:
  "reachable c pk sk env s \<Longrightarrow> tbls_sound pk tsig \<Longrightarrow> digest_nonempty env \<Longrightarrow>
     \<forall>e. recv_status s = Died e \<longrightarrow> byzantine_error e"
proof (induction rule: reachable.induct)
  case (init s)
  then show ?case by (auto simp: shared_coin_def split: if_splits)
next
  case (step s e s')
  then show ?case using sys_step_status reachable_sys_inv_aux by blast
qed

lemma stopped_step:
  assumes "recv_status s \<noteq> Running" "output_queue (engine s) r = []"
    "sys_step c pk sk env s e = Some s1"
  shows "recv_status s1 \<noteq> Running \<and> output_queue (engine s1) r = [] \<and>
    filter (\<lambda>p. fst p = r) (returned s1) = filter (\<lambda>p. fst p = r) (returned s)"
proof (cases e)
  case (Wake r')
  with assms show ?thesis
    by (cases "r' = r") (auto simp: get_coin_wake_def queue_get_def split: if_splits list.splits)
qed (use assms in \<open>auto simp: get_coin_call_def recv_deliver_def recv_cancel_def\<close>)


lemma reachable_run:
  "reachable c pk sk env s \<Longrightarrow> sys_run c pk sk env s es = Some s' \<Longrightarrow> reachable c pk sk env s'"
proof (induction es arbitrary: s)
  case (Cons e es)
  then show ?case by (auto split: option.splits intro: reachable.step)
qed simp

lemma some_caseE: "(case x of Some s \<Rightarrow> P s | None \<Rightarrow> False) \<Longrightarrow> \<exists>s. x = Some s \<and> P s"
  by (cases x) auto

lemma demo_init_reachable: "reachable demo_cfg demo_pk sk toy_env demo_init"
  by (rule reachable.init)
    (simp add: shared_coin_def demo_init_def demo_cfg_def demo_pk_def toy_pk_def)

lemma demo_run:
  "\<exists>s. sys_run demo_cfg demo_pk (toy_sk 0) toy_env demo_init demo_events = Some s \<and>
     (0, 1) \<in> set (returned s) \<and> waiting s = [0] \<and> output_queue (engine s) 0 = []"
  by (rule some_caseE) code_simp

lemma sys_run_deliver:
  assumes "recv_status s = Running" "recv_loop c pk env (engine s) ms = (st', outs, None)"
  shows "sys_run c pk sk env s (map Deliver ms) = Some (s\<lparr>engine := st'\<rparr>)"
  using assms
proof (induction ms arbitrary: s outs)
  case (Cons m ms)
  from Cons.prems(2) show ?case
  proof (cases rule: recv_loop_Cons_Inr)
    case died
    then show ?thesis by simp
  next
    case (cont st1 out outs1)
    have "sys_step c pk sk env s (Deliver m) = Some (s\<lparr>engine := st1\<rparr>)"
      using Cons.prems(1) cont(1) by (simp add: recv_deliver_def)
    moreover have "sys_run c pk sk env (s\<lparr>engine := st1\<rparr>) (map Deliver ms) = Some (s\<lparr>engine := st'\<rparr>)"
      using Cons.IH [of "s\<lparr>engine := st1\<rparr>" outs1] Cons.prems(1) cont(2) by simp
    ultimately show ?thesis by simp
  qed
qed simp


lemma sys_run_append:
  "sys_run c pk sk env s (xs @ ys) =
     (case sys_run c pk sk env s xs of None \<Rightarrow> None | Some s' \<Rightarrow> sys_run c pk sk env s' ys)"
  by (induction xs arbitrary: s) (auto split: option.splits)

lemma honest_share_senders:
  assumes cd: "codec_ok env" and honest: "\<forall>i \<in> set P. sk_correct pk (sks i) i"
    and sent: "set (honest_msgs c pk sks env r P) \<subseteq> set ms"
  shows "set P \<subseteq> set (share_senders c pk env r ms)"
proof
  fix i assume i: "i \<in> set P"
  let ?s = "sk_sign (sks i) (round_digest c pk r)"
  from i sent have m: "(i, ''COIN'', r, serialize env ?s) \<in> set ms"
    by (auto simp: honest_msgs_def coin_broadcast_msg_def)
  from cd have "deserialize1 env (serialize env ?s) = Some ?s" by (simp add: codec_ok_def)
  moreover from honest i have "verify_share pk ?s i (round_digest c pk r)"
    by (simp add: sk_correct_def)
  ultimately show "i \<in> set (share_senders c pk env r ms)"
    using m by (force simp: share_senders_def)
qed

subsection \<open>Properties of the coin instance\<close>

text \<open>C1: every state of a coin instance reachable from \<^verbatim>\<open>shared_coin\<close>, under any
  interleaving of \<^verbatim>\<open>get_coin\<close> calls, resumptions, deliveries of arbitrary
  network messages and cancellation, satisfies the invariant: the ledger holds at most one
  verified share per in-range party and round, and each round's coin has been put into
  its queue or handed to a caller at most once, and not at all before the round's ledger
  reached \<open>f + 1\<close> shares.\<close>

theorem reachable_coin_invariant: "reachable c pk sk env s \<Longrightarrow> sys_inv c pk s"
  by (rule reachable_sys_inv_aux)

theorem reachable_coin_invariant_witness:
  "\<exists>s. sys_run demo_cfg demo_pk (toy_sk 0) toy_env demo_init demo_events = Some s \<and>
     reachable demo_cfg demo_pk (toy_sk 0) toy_env s \<and> sys_inv demo_cfg demo_pk s"
proof -
  from demo_run obtain s where run: "sys_run demo_cfg demo_pk (toy_sk 0) toy_env demo_init demo_events = Some s"
    by blast
  from reachable_run [OF demo_init_reachable run] have r: "reachable demo_cfg demo_pk (toy_sk 0) toy_env s" .
  with run reachable_coin_invariant [OF r] show ?thesis by blast
qed

text \<open>C3: \<^verbatim>\<open>get_coin\<close> refines the ideal coin: every bit a caller receives for round
  \<open>r\<close> is the least bit of the first byte of the hash of the one threshold
  signature on \<^verbatim>\<open>str((sid, r))\<close>, whatever shares, in whatever order, produced
  it.\<close>

theorem get_coin_returns_ideal:
  assumes "reachable c pk sk env s" "tbls_sound pk tsig" "(r, b) \<in> set (returned s)"
  shows "ideal_coin env pk tsig (cc_sid c) r = Some b"
  using reachable_values_ideal [OF assms(1,2)] assms(3) by (auto simp: values_ideal_def)

theorem get_coin_returns_ideal_witness: "ideal_coin toy_env demo_pk (\<lambda>h. h) ''sidA'' 0 = Some 1"
proof -
  from demo_run obtain s where run: "sys_run demo_cfg demo_pk (toy_sk 0) toy_env demo_init demo_events = Some s"
    and ret: "(0, 1) \<in> set (returned s)" by blast
  have snd: "tbls_sound demo_pk (\<lambda>h. h)" unfolding demo_pk_def by (rule toy_pk_sound) simp
  from get_coin_returns_ideal [OF reachable_run [OF demo_init_reachable run] snd ret]
  show ?thesis by (simp add: demo_cfg_def)
qed

text \<open>C4: liveness. If \<open>f + 1\<close> distinct parties with correct keys broadcast their
  shares of round \<open>r\<close> (the message \<^verbatim>\<open>get_coin\<close> sends) and these reach the
  receive loop among any other well-formed messages, in any order and with any
  duplicates or forgeries, the loop runs through all of them and puts round \<open>r\<close>'s
  coin, the ideal one.\<close>

theorem honest_shares_resolve:
  assumes inv: "engine_inv c pk st" and cfg: "config_ok c pk" and snd: "tbls_sound pk tsig"
    and dg: "digest_nonempty env" and cd: "codec_ok env"
    and honest: "\<forall>i \<in> set P. sk_correct pk (sks i) i"
    and quorum: "cc_f c + 1 \<le> int (card (set P))"
    and sent: "set (honest_msgs c pk sks env r P) \<subseteq> set ms"
    and ok: "list_all (msg_ok c env) ms"
    and open_r: "int (length (received st r)) \<le> cc_f c"
  shows "\<exists>st' outs b. recv_loop c pk env st ms = (st', outs, None) \<and> CoinPut r b \<in> set outs \<and>
    ideal_coin env pk tsig (cc_sid c) r = Some b"
proof -
  from honest_share_senders [OF cd honest sent]
  have "set P \<subseteq> set (share_senders c pk env r ms)" .
  then have "card (set P) \<le> card (set (share_senders c pk env r ms))" by (intro card_mono) auto
  with quorum have "cc_f c + 1 \<le> int (card (set (share_senders c pk env r ms)))" by linarith
  from recv_loop_resolves [OF inv cfg snd dg ok open_r this] show ?thesis .
qed

theorem honest_shares_resolve_witness:
  "\<exists>st' outs b. recv_loop demo_cfg demo_pk toy_env init_coin_state
       [demo_share 0 0, (3, ''COIN'', 0, [99]), demo_share 0 0, demo_share 2 5, demo_share 1 0] =
       (st', outs, None) \<and> CoinPut 0 b \<in> set outs \<and> ideal_coin toy_env demo_pk (\<lambda>h. h) ''sidA'' 0 = Some b"
proof -
  have "\<exists>st' outs b. recv_loop demo_cfg demo_pk toy_env init_coin_state
       [demo_share 0 0, (3, ''COIN'', 0, [99]), demo_share 0 0, demo_share 2 5, demo_share 1 0] =
       (st', outs, None) \<and> CoinPut 0 b \<in> set outs \<and> ideal_coin toy_env demo_pk (\<lambda>h. h) (cc_sid demo_cfg) 0 = Some b"
  proof (rule honest_shares_resolve [where P = "[0, 1]" and sks = toy_sk])
    show "engine_inv demo_cfg demo_pk init_coin_state" by (rule engine_inv_init)
    show "config_ok demo_cfg demo_pk" by (simp add: config_ok_def demo_cfg_def demo_pk_def toy_pk_def)
    show "tbls_sound demo_pk (\<lambda>h. h)" unfolding demo_pk_def by (rule toy_pk_sound) simp
    show "digest_nonempty toy_env" by (rule toy_env_digest)
    show "codec_ok toy_env" by (rule toy_env_codec)
    show "\<forall>i \<in> set [0, 1]. sk_correct demo_pk (toy_sk i) i"
      unfolding demo_pk_def using toy_sk_correct by blast
    show "cc_f demo_cfg + 1 \<le> int (card (set [0, 1 :: int]))" by (simp add: demo_cfg_def)
    show "set (honest_msgs demo_cfg demo_pk toy_sk toy_env 0 [0, 1]) \<subseteq>
        set [demo_share 0 0, (3, ''COIN'', 0, [99]), demo_share 0 0, demo_share 2 5, demo_share 1 0]"
      by (simp add: honest_msgs_def demo_share_def coin_broadcast_msg_def)
    show "list_all (msg_ok demo_cfg toy_env)
        [demo_share 0 0, (3, ''COIN'', 0, [99]), demo_share 0 0, demo_share 2 5, demo_share 1 0]"
      by code_simp
    show "int (length (received init_coin_state 0)) \<le> cc_f demo_cfg" by (simp add: demo_cfg_def)
  qed
  then show ?thesis by (simp add: demo_cfg_def)
qed

text \<open>C7: with a sound scheme, the receive task of a reachable state can only have died
  of Byzantine input (undeserialisable bytes, a sender outside \<^verbatim>\<open>range(n)\<close>, a
  negative round): the internal-invariant failures of lines 74, 77 and 80 never end it.\<close>

theorem reachable_only_byzantine_errors:
  assumes "reachable c pk sk env s" "tbls_sound pk tsig" "digest_nonempty env"
    "recv_status s = Died e"
  shows "byzantine_error e"
  using reachable_status [OF assms(1-3)] assms(4) by blast

theorem reachable_only_byzantine_errors_witness:
  "\<exists>s. sys_run demo_cfg demo_pk (toy_sk 0) toy_env demo_init [Deliver (7, ''COIN'', 0, [1])] = Some s \<and>
     recv_status s = Died SenderOutOfRange \<and> byzantine_error SenderOutOfRange"
proof -
  have "\<exists>s. sys_run demo_cfg demo_pk (toy_sk 0) toy_env demo_init [Deliver (7, ''COIN'', 0, [1])] = Some s \<and>
      recv_status s = Died SenderOutOfRange"
    by (rule some_caseE) code_simp
  then obtain s where run: "sys_run demo_cfg demo_pk (toy_sk 0) toy_env demo_init
      [Deliver (7, ''COIN'', 0, [1])] = Some s" and st: "recv_status s = Died SenderOutOfRange" by blast
  have snd: "tbls_sound demo_pk (\<lambda>h. h)" unfolding demo_pk_def by (rule toy_pk_sound) simp
  from reachable_only_byzantine_errors [OF reachable_run [OF demo_init_reachable run] snd toy_env_digest st]
    run st show ?thesis by blast
qed

text \<open>C9: a round's coin reaches at most one \<^verbatim>\<open>get_coin\<close> call. The bit is put
  once into a queue of size one and \<^verbatim>\<open>get\<close> removes it, so a second call for a
  resolved round (or a second concurrent caller) is never resumed, where the spec asks
  that every call return the round's bit.\<close>

theorem get_coin_single_return:
  assumes "reachable c pk sk env s"
  shows "length (filter (\<lambda>p. fst p = r) (returned s)) \<le> 1"
proof -
  from reachable_sys_inv_aux [OF assms] have "delivered s r \<le> 1" by (simp add: sys_inv_def)
  then show ?thesis by (simp add: delivered_def)
qed

theorem get_coin_single_return_witness:
  "\<exists>s. sys_run demo_cfg demo_pk (toy_sk 0) toy_env demo_init demo_events = Some s \<and>
     waiting s = [0] \<and> output_queue (engine s) 0 = [] \<and>
     length (filter (\<lambda>p. fst p = 0) (returned s)) \<le> 1"
proof -
  from demo_run obtain s where run: "sys_run demo_cfg demo_pk (toy_sk 0) toy_env demo_init demo_events = Some s"
    and w: "waiting s = [0]" "output_queue (engine s) 0 = []" by blast
  from get_coin_single_return [OF reachable_run [OF demo_init_reachable run], of 0] run w
  show ?thesis by blast
qed

text \<open>C10: once the receive task has stopped (cancelled, or died), a round whose queue
  is empty never delivers a bit again: every call of \<^verbatim>\<open>get_coin\<close> waiting on it
  stays suspended, where the spec asks that it fail with a cancellation error.\<close>

theorem stopped_round_never_returns:
  assumes "recv_status s \<noteq> Running" "output_queue (engine s) r = []"
    "sys_run c pk sk env s es = Some s'"
  shows "filter (\<lambda>p. fst p = r) (returned s') = filter (\<lambda>p. fst p = r) (returned s)"
  using assms
proof (induction es arbitrary: s)
  case (Cons e es)
  from Cons.prems obtain s1 where s1: "sys_step c pk sk env s e = Some s1"
    and run: "sys_run c pk sk env s1 es = Some s'" by (auto split: option.splits)
  from stopped_step [OF Cons.prems(1,2) s1] Cons.IH [OF _ _ run] show ?case by simp
qed simp

theorem stopped_round_never_returns_witness:
  "\<exists>s s'. sys_run demo_cfg demo_pk (toy_sk 0) toy_env demo_init
        [Call 0, Deliver (demo_share 0 0), Cancel] = Some s \<and>
     sys_run demo_cfg demo_pk (toy_sk 0) toy_env s [Call 0, Call 5] = Some s' \<and>
     waiting s' = [0, 0, 5] \<and> filter (\<lambda>p. fst p = 0) (returned s') = filter (\<lambda>p. fst p = 0) (returned s)"
proof -
  have "case sys_run demo_cfg demo_pk (toy_sk 0) toy_env demo_init [Call 0, Deliver (demo_share 0 0), Cancel] of
      Some s \<Rightarrow> recv_status s = Cancelled \<and> output_queue (engine s) 0 = [] \<and>
        (case sys_run demo_cfg demo_pk (toy_sk 0) toy_env s [Call 0, Call 5] of
           Some s' \<Rightarrow> waiting s' = [0, 0, 5] | None \<Rightarrow> False)
    | None \<Rightarrow> False"
    by code_simp
  from some_caseE [OF this] obtain s where r1: "sys_run demo_cfg demo_pk (toy_sk 0) toy_env demo_init
        [Call 0, Deliver (demo_share 0 0), Cancel] = Some s"
    and st: "recv_status s = Cancelled" and q: "output_queue (engine s) 0 = []"
    and c2: "case sys_run demo_cfg demo_pk (toy_sk 0) toy_env s [Call 0, Call 5] of
           Some s' \<Rightarrow> waiting s' = [0, 0, 5] | None \<Rightarrow> False" by blast
  from some_caseE [OF c2] obtain s' where
    r2: "sys_run demo_cfg demo_pk (toy_sk 0) toy_env s [Call 0, Call 5] = Some s'"
    and w: "waiting s' = [0, 0, 5]" by blast
  from st have "recv_status s \<noteq> Running" by simp
  from stopped_round_never_returns [OF this q r2] r1 r2 w show ?thesis by blast
qed

text \<open>C15: liveness of \<^verbatim>\<open>get_coin\<close>. In a reachable state whose receive task
  runs, a caller waiting on a round that has not yet reached \<open>f + 1\<close> shares is
  resumed with the round's ideal coin once the shares of \<open>f + 1\<close> honest parties
  arrive among any other well-formed messages.\<close>

theorem waiting_caller_resumed:
  assumes reach: "reachable c pk sk env s" and snd: "tbls_sound pk tsig"
    and dg: "digest_nonempty env" and cd: "codec_ok env"
    and alive: "recv_status s = Running" and w: "r \<in> set (waiting s)"
    and open_r: "int (length (received (engine s) r)) \<le> cc_f c"
    and honest: "\<forall>i \<in> set P. sk_correct pk (sks i) i" and quorum: "cc_f c + 1 \<le> int (card (set P))"
    and sent: "set (honest_msgs c pk sks env r P) \<subseteq> set ms" and ok: "list_all (msg_ok c env) ms"
  shows "\<exists>s' b. sys_run c pk sk env s (map Deliver ms @ [Wake r]) = Some s' \<and>
    (r, b) \<in> set (returned s') \<and> ideal_coin env pk tsig (cc_sid c) r = Some b"
proof -
  from reachable_sys_inv_aux [OF reach] have inv: "engine_inv c pk (engine s)" and cfg: "config_ok c pk"
    and d0: "delivered s r = 0"
    using open_r by (auto simp: sys_inv_def)
  from d0 have q0: "output_queue (engine s) r = []" by (simp add: delivered_def)
  from honest_share_senders [OF cd honest sent]
  have "card (set P) \<le> card (set (share_senders c pk env r ms))" by (intro card_mono) auto
  with quorum have q': "cc_f c + 1 \<le> int (card (set (share_senders c pk env r ms)))" by linarith
  from recv_loop_resolves [OF inv cfg snd dg ok open_r q'] obtain st' outs b where
    loop: "recv_loop c pk env (engine s) ms = (st', outs, None)" and put: "CoinPut r b \<in> set outs"
    by blast
  from recv_loop_queue [OF loop, of r] q0 have q: "output_queue st' r = put_bits r outs" by simp
  from put_bits_in [OF put] obtain b' rest where pb: "put_bits r outs = b' # rest"
    by (cases "put_bits r outs") auto
  then have "CoinPut r b' \<in> set outs" by (intro put_bits_set) simp
  from recv_loop_put_ideal [OF inv cfg snd loop this] have ideal: "ideal_coin env pk tsig (cc_sid c) r = Some b'" .
  let ?s1 = "s\<lparr>engine := st'\<rparr>"
  have d: "sys_run c pk sk env s (map Deliver ms) = Some ?s1" by (rule sys_run_deliver [OF alive loop])
  from w q pb obtain s' where wake: "get_coin_wake ?s1 r = Some (s', b')" and ret: "(r, b') \<in> set (returned s')"
    by (auto simp: get_coin_wake_def queue_get_def)
  from d wake have "sys_run c pk sk env s (map Deliver ms @ [Wake r]) = Some s'"
    by (simp add: sys_run_append)
  with ret ideal show ?thesis by blast
qed

theorem waiting_caller_resumed_witness:
  "\<exists>s s' b. sys_run demo_cfg demo_pk (toy_sk 0) toy_env demo_init [Call 0] = Some s \<and>
     sys_run demo_cfg demo_pk (toy_sk 0) toy_env s
       (map Deliver [demo_share 2 0, demo_share 0 5, demo_share 3 0] @ [Wake 0]) = Some s' \<and>
     (0, b) \<in> set (returned s') \<and> ideal_coin toy_env demo_pk (\<lambda>h. h) ''sidA'' 0 = Some b"
proof -
  have "case sys_run demo_cfg demo_pk (toy_sk 0) toy_env demo_init [Call 0] of
      Some s \<Rightarrow> recv_status s = Running \<and> 0 \<in> set (waiting s) \<and>
        int (length (received (engine s) 0)) \<le> cc_f demo_cfg
    | None \<Rightarrow> False"
    by code_simp
  from some_caseE [OF this] obtain s where run: "sys_run demo_cfg demo_pk (toy_sk 0) toy_env demo_init [Call 0] = Some s"
    and alive: "recv_status s = Running" and w: "0 \<in> set (waiting s)"
    and op: "int (length (received (engine s) 0)) \<le> cc_f demo_cfg" by blast
  have snd: "tbls_sound demo_pk (\<lambda>h. h)" unfolding demo_pk_def by (rule toy_pk_sound) simp
  have "\<exists>s' b. sys_run demo_cfg demo_pk (toy_sk 0) toy_env s
       (map Deliver [demo_share 2 0, demo_share 0 5, demo_share 3 0] @ [Wake 0]) = Some s' \<and>
      (0, b) \<in> set (returned s') \<and> ideal_coin toy_env demo_pk (\<lambda>h. h) (cc_sid demo_cfg) 0 = Some b"
  proof (rule waiting_caller_resumed [where P = "[2, 3]" and sks = toy_sk])
    show "reachable demo_cfg demo_pk (toy_sk 0) toy_env s"
      by (rule reachable_run [OF demo_init_reachable run])
    show "tbls_sound demo_pk (\<lambda>h. h)" by (rule snd)
    show "digest_nonempty toy_env" by (rule toy_env_digest)
    show "codec_ok toy_env" by (rule toy_env_codec)
    show "recv_status s = Running" by (rule alive)
    show "0 \<in> set (waiting s)" by (rule w)
    show "int (length (received (engine s) 0)) \<le> cc_f demo_cfg" by (rule op)
    show "\<forall>i \<in> set [2, 3]. sk_correct demo_pk (toy_sk i) i"
      unfolding demo_pk_def using toy_sk_correct by blast
    show "cc_f demo_cfg + 1 \<le> int (card (set [2, 3 :: int]))" by (simp add: demo_cfg_def)
    show "set (honest_msgs demo_cfg demo_pk toy_sk toy_env 0 [2, 3]) \<subseteq>
        set [demo_share 2 0, demo_share 0 5, demo_share 3 0]"
      by (simp add: honest_msgs_def demo_share_def coin_broadcast_msg_def)
    show "list_all (msg_ok demo_cfg toy_env) [demo_share 2 0, demo_share 0 5, demo_share 3 0]"
      by code_simp
  qed
  with run show ?thesis by (auto simp: demo_cfg_def)
qed

text \<open>C16: what \<^verbatim>\<open>get_coin\<close> broadcasts. Every call, also a repeated one,
  appends one \<^verbatim>\<open>('COIN', r, bytes)\<close> message to the broadcasts and suspends the
  caller on round \<open>r\<close>; with a correct key and serialisation the bytes are a share
  that verifies for the caller's id on round \<open>r\<close>'s digest, so every party's
  receive loop accepts it.\<close>

theorem get_coin_broadcast_valid:
  assumes "sys_step c pk sk env s (Call r) = Some s'" "sk_correct pk sk (cc_pid c)" "codec_ok env"
  shows "\<exists>bs sig. sent s' = sent s @ [(''COIN'', r, bs)] \<and> r \<in> set (waiting s') \<and>
    deserialize1 env bs = Some sig \<and> verify_share pk sig (cc_pid c) (round_digest c pk r)"
  using assms
  by (auto simp: get_coin_call_def coin_broadcast_msg_def sk_correct_def codec_ok_def)

theorem get_coin_broadcast_valid_witness:
  "\<exists>bs sig. sent (get_coin_call demo_cfg demo_pk (toy_sk 0) toy_env demo_init 0) =
       sent demo_init @ [(''COIN'', 0, bs)] \<and>
     0 \<in> set (waiting (get_coin_call demo_cfg demo_pk (toy_sk 0) toy_env demo_init 0)) \<and>
     deserialize1 toy_env bs = Some sig \<and> verify_share demo_pk sig (cc_pid demo_cfg) (round_digest demo_cfg demo_pk 0)"
proof (rule get_coin_broadcast_valid)
  show "sys_step demo_cfg demo_pk (toy_sk 0) toy_env demo_init (Call 0) =
      Some (get_coin_call demo_cfg demo_pk (toy_sk 0) toy_env demo_init 0)" by simp
  show "sk_correct demo_pk (toy_sk 0) (cc_pid demo_cfg)"
    unfolding demo_pk_def demo_cfg_def using toy_sk_correct by simp
  show "codec_ok toy_env" by (rule toy_env_codec)
qed

end
