(* ===== verification/Coin_Driver.thy ===== *)
theory Coin_Driver
  imports Coin_Handle
begin

text \<open>
  The driver \<^verbatim>\<open>run_common_coin\<close> (commoncoin.py lines 102 to 120): after
  \<^verbatim>\<open>shared_coin\<close> it awaits \<^verbatim>\<open>coin(i)\<close> for \<^verbatim>\<open>i in range(10)\<close>, one
  call at a time, logs each value and cancels the receive task. In the system of
  \<open>Coin_Handle\<close> one iteration is the event sequence \<open>driver_round\<close>: the call, the
  messages the network delivers while the caller waits, the resumption; the whole driver
  is \<open>run_common_coin_events\<close>. The transport set-up and teardown (lines 103 to 108,
  119, 120) only open and close connections and are not modelled; \<^verbatim>\<open>broadcast\<close>
  (lines 110 to 112) is the \<open>sent\<close> list of the system here and is composed with the
  other parties in \<open>Coin_Net\<close>. The invariant
  \<open>resolved_inv\<close> (a round whose ledger has passed \<open>f\<close> shares has had its coin
  put or handed out) lets a round resolve even when its shares arrived before its call.
\<close>

subsection \<open>The driver\<close>

text \<open>One iteration of \<^verbatim>\<open>for i in range(10): await coin(i)\<close>, and the whole
  loop followed by \<^verbatim>\<open>crecv_task.cancel()\<close>; \<open>mss\<close> lists the messages
  delivered during each wait.\<close>

definition driver_round :: "round \<Rightarrow> coin_msg list \<Rightarrow> coin_event list" where
  "driver_round i ms = Call i # map Deliver ms @ [Wake i]"

definition run_common_coin_events :: "coin_msg list list \<Rightarrow> coin_event list" where
  "run_common_coin_events mss =
     concat (map (\<lambda>(i, ms). driver_round (int i) ms) (zip [0..<10] mss)) @ [Cancel]"

text \<open>The record \<^verbatim>\<open>logging.info("%d COIN VALUE: %s", i, await coin(i))\<close> of line
  116 logs for each coin: \<^verbatim>\<open>%d\<close> of the round, \<^verbatim>\<open>%s\<close> of the bit (an
  \<^verbatim>\<open>int\<close>, printed as its decimal form); the driver's log is one such line per coin
  handed to it, in order. Whether the record is emitted depends on the logging level,
  which the module does not set.\<close>

definition coin_log_line :: "round \<Rightarrow> nat \<Rightarrow> string" where
  "coin_log_line i b = py_str_int i @ '' COIN VALUE: '' @ py_str_int (int b)"

definition driver_log :: "'sig coin_sys \<Rightarrow> string list" where
  "driver_log s = map (\<lambda>(i, b). coin_log_line i b) (returned s)"

subsection \<open>Invariant and instance\<close>

definition resolved_inv :: "coin_config \<Rightarrow> 'sig coin_sys \<Rightarrow> bool" where
  "resolved_inv c s \<longleftrightarrow> (\<forall>r. cc_f c < int (length (received (engine s) r)) \<longrightarrow> delivered s r = 1)"

definition demo_driver_msgs :: "coin_msg list list" where
  "demo_driver_msgs =
     map (\<lambda>k. [demo_share 2 (int k + 1), demo_share 0 (int k), (3, ''COIN'', int k, [7]),
                demo_share 3 (int k + 1), demo_share 1 (int k)]) [0..<10]"

subsection \<open>Lemmas\<close>

lemma put_bits_single: "length (put_bits r [out]) = (if is_put r out then 1 else 0)"
  by (cases out) (auto simp: is_put_def)

lemma get_coin_wake_delivered:
  assumes w: "get_coin_wake s r = Some (s', b)"
  shows "delivered s' r' = delivered s r' \<and> received (engine s') = received (engine s)"
proof -
  from w obtain q where q: "output_queue (engine s) r = b # q" and
    s': "s' = s\<lparr>engine := (engine s)\<lparr>output_queue := (output_queue (engine s))(r := q)\<rparr>,
            waiting := remove1 r (waiting s), returned := returned s @ [(r, b)]\<rparr>"
    by (auto simp: get_coin_wake_def queue_get_def split: if_splits list.splits)
  then show ?thesis by (cases "r' = r") (simp_all add: delivered_def)
qed

lemma recv_step_resolved:
  assumes inv: "sys_inv c pk s" and res: "resolved_inv c s"
    and step: "recv_step c pk env (engine s) (i, t, r, bs) = Inr (st', out)"
  shows "resolved_inv c (s\<lparr>engine := st'\<rparr>)"
  unfolding resolved_inv_def
proof (intro allI impI)
  fix r'
  assume big: "cc_f c < int (length (received (engine (s\<lparr>engine := st'\<rparr>)) r'))"
  have q: "output_queue st' r' = output_queue (engine s) r' @ put_bits r' [out]"
    by (rule recv_step_queue [OF step])
  show "delivered (s\<lparr>engine := st'\<rparr>) r' = 1"
  proof (cases "cc_f c < int (length (received (engine s) r'))")
    case True
    with res have "delivered s r' = 1" by (simp add: resolved_inv_def)
    moreover have "\<not> is_put r' out"
      using recv_step_put [OF step] True by fastforce
    ultimately show ?thesis using q by (simp add: delivered_def put_bits_single)
  next
    case False
    with inv have "delivered s r' = 0" by (simp add: sys_inv_def)
    moreover have "is_put r' out"
      using recv_step_cross [OF step] False big by simp
    ultimately show ?thesis using q by (simp add: delivered_def put_bits_single)
  qed
qed

lemma sys_step_resolved:
  assumes inv: "sys_inv c pk s" and res: "resolved_inv c s" and snd: "tbls_sound pk tsig"
    and dg: "digest_nonempty env" and st: "sys_step c pk sk env s e = Some s'"
  shows "resolved_inv c s'"
proof (cases e)
  case (Deliver m)
  obtain i t r bs where m: "m = (i, t, r, bs)" by (cases m rule: prod_cases4)
  from inv have ei: "engine_inv c pk (engine s)" and cfg: "config_ok c pk" by (simp_all add: sys_inv_def)
  show ?thesis
  proof (cases "recv_status s = Running")
    case False
    with Deliver st have "s' = s" by (simp add: recv_deliver_def)
    with res show ?thesis by simp
  next
    case run: True
    show ?thesis
  proof (cases "recv_step c pk env (engine s) (i, t, r, bs)")
    case (Inl a)
    obtain er st' where a: "a = (er, st')" by (cases a)
    with Inl have step: "recv_step c pk env (engine s) (i, t, r, bs) = Inl (er, st')" by simp
    from step have "st' = engine s"
    proof (cases rule: recv_step_Inl)
      case (fatal sig)
      then have "msg_ok c env (i, t, r, bs)" by (simp add: msg_ok_def)
      from recv_step_total_tuple [OF ei cfg snd dg this] step show ?thesis by simp
    qed simp
    moreover from st Deliver m step run have "s' = s\<lparr>engine := st', recv_status := Died er\<rparr>"
      by (simp add: recv_deliver_def split: if_splits)
    ultimately show ?thesis using res by (simp add: resolved_inv_def delivered_def)
  next
    case (Inr a)
    obtain st' out where a: "a = (st', out)" by (cases a)
    with Inr have step: "recv_step c pk env (engine s) (i, t, r, bs) = Inr (st', out)" by simp
    with st Deliver m run have "s' = s\<lparr>engine := st'\<rparr>"
      by (auto simp: recv_deliver_def split: if_splits)
    with recv_step_resolved [OF inv res step] show ?thesis by simp
  qed
  qed
next
  case (Wake r)
  with st obtain b where "get_coin_wake s r = Some (s', b)" by auto
  from get_coin_wake_delivered [OF this] res show ?thesis by (simp add: resolved_inv_def)
next
  case (Call r)
  with st have "s' = get_coin_call c pk sk env s r" by simp
  with res show ?thesis by (simp add: get_coin_call_def resolved_inv_def delivered_def)
next
  case Cancel
  with st res show ?thesis by (auto simp: recv_cancel_def resolved_inv_def delivered_def split: if_splits)
qed

lemma reachable_resolved:
  assumes "reachable c pk sk env s" "0 \<le> cc_f c" "tbls_sound pk tsig" "digest_nonempty env"
  shows "resolved_inv c s"
  using assms
proof (induction rule: reachable.induct)
  case (init s)
  then show ?case by (auto simp: shared_coin_def resolved_inv_def split: if_splits)
next
  case (step s e s')
  from step.IH step.prems have "resolved_inv c s" by simp
  from sys_step_resolved [OF reachable_sys_inv_aux [OF step.hyps(1)] this step.prems(2,3) step.hyps(2)]
  show ?case .
qed

lemma pairs_by_fst:
  "map fst xs = ys \<Longrightarrow> list_all (\<lambda>(a, b). g a = Some b) xs \<Longrightarrow> xs = map (\<lambda>a. (a, the (g a))) ys"
  by (induction xs arbitrary: ys) auto

lemma quorum_wake_run:
  assumes reach: "reachable c pk sk env s" and alive: "recv_status s = Running"
    and f0: "0 \<le> cc_f c" and snd: "tbls_sound pk tsig" and dg: "digest_nonempty env"
    and cd: "codec_ok env" and honest: "\<forall>i \<in> set P. sk_correct pk (sks i) i"
    and quorum: "cc_f c + 1 \<le> int (card (set P))"
    and sent: "set (honest_msgs c pk sks env r P) \<subseteq> set ms" and ok: "list_all (msg_ok c env) ms"
    and fresh: "r \<notin> set (map fst (returned s))" and w: "r \<in> set (waiting s)"
  shows "\<exists>s' b. sys_run c pk sk env s (map Deliver ms @ [Wake r]) = Some s' \<and>
    returned s' = returned s @ [(r, b)] \<and> waiting s' = remove1 r (waiting s) \<and>
    recv_status s' = Running"
proof -
  from reachable_sys_inv_aux [OF reach] have inv: "engine_inv c pk (engine s)"
    and cfg: "config_ok c pk" by (simp_all add: sys_inv_def)
  from recv_loop_total [OF inv cfg snd dg ok] obtain st' outs where
    loop: "recv_loop c pk env (engine s) ms = (st', outs, None)" by blast
  have q': "output_queue st' r = output_queue (engine s) r @ put_bits r outs"
    by (rule recv_loop_queue [OF loop])
  have "output_queue st' r \<noteq> []"
  proof (cases "int (length (received (engine s) r)) \<le> cc_f c")
    case True
    from honest_share_senders [OF cd honest sent]
    have "card (set P) \<le> card (set (share_senders c pk env r ms))" by (intro card_mono) auto
    with quorum have "cc_f c + 1 \<le> int (card (set (share_senders c pk env r ms)))" by linarith
    from recv_loop_resolves [OF inv cfg snd dg ok True this] loop
    obtain b where "CoinPut r b \<in> set outs" by auto
    with q' show ?thesis using put_bits_in by fastforce
  next
    case False
    with reachable_resolved [OF reach f0 snd dg] have "delivered s r = 1"
      by (simp add: resolved_inv_def)
    moreover have "filter (\<lambda>p. fst p = r) (returned s) = []"
      using fresh by (auto simp: filter_empty_conv)
    ultimately show ?thesis using q' by (auto simp: delivered_def)
  qed
  then obtain b q where bq: "output_queue st' r = b # q" by (cases "output_queue st' r") auto
  let ?s2 = "s\<lparr>engine := st'\<rparr>"
  have d: "sys_run c pk sk env s (map Deliver ms) = Some ?s2" by (rule sys_run_deliver [OF alive loop])
  let ?s3 = "?s2\<lparr>engine := st'\<lparr>output_queue := (output_queue st')(r := q)\<rparr>,
     waiting := remove1 r (waiting ?s2), returned := returned ?s2 @ [(r, b)]\<rparr>"
  have "get_coin_wake ?s2 r = Some (?s3, b)"
    using bq w by (simp add: get_coin_wake_def queue_get_def)
  with d have "sys_run c pk sk env s (map Deliver ms @ [Wake r]) = Some ?s3"
    by (simp add: sys_run_append)
  then show ?thesis using alive by auto
qed

lemma driver_round_run:
  assumes reach: "reachable c pk sk env s" and alive: "recv_status s = Running"
    and f0: "0 \<le> cc_f c" and snd: "tbls_sound pk tsig" and dg: "digest_nonempty env"
    and cd: "codec_ok env" and honest: "\<forall>i \<in> set P. sk_correct pk (sks i) i"
    and quorum: "cc_f c + 1 \<le> int (card (set P))"
    and sent: "set (honest_msgs c pk sks env r P) \<subseteq> set ms" and ok: "list_all (msg_ok c env) ms"
    and fresh: "r \<notin> set (map fst (returned s))" and nw: "r \<notin> set (waiting s)"
  shows "\<exists>s' b. sys_run c pk sk env s (driver_round r ms) = Some s' \<and>
    returned s' = returned s @ [(r, b)] \<and> waiting s' = waiting s \<and> recv_status s' = Running"
proof -
  let ?s1 = "get_coin_call c pk sk env s r"
  have reach1: "reachable c pk sk env ?s1"
    using reach by (rule reachable.step [where e = "Call r"]) simp
  have "recv_status ?s1 = Running" "r \<notin> set (map fst (returned ?s1))" "r \<in> set (waiting ?s1)"
    using alive fresh by (simp_all add: get_coin_call_def)
  from quorum_wake_run [OF reach1 this(1) f0 snd dg cd honest quorum sent ok this(2,3)]
  obtain s' b where run: "sys_run c pk sk env ?s1 (map Deliver ms @ [Wake r]) = Some s'"
    and props: "returned s' = returned ?s1 @ [(r, b)]" "waiting s' = remove1 r (waiting ?s1)"
      "recv_status s' = Running" by blast
  have "sys_run c pk sk env s (driver_round r ms) = Some s'"
    using run by (simp add: driver_round_def)
  moreover have "waiting s' = waiting s" using props(2) nw by (simp add: get_coin_call_def remove1_append)
  ultimately show ?thesis using props(1,3) by (auto simp: get_coin_call_def)
qed

lemma driver_rounds_run:
  assumes reach: "reachable c pk sk env s" and alive: "recv_status s = Running"
    and nw: "waiting s = []"
    and f0: "0 \<le> cc_f c" and snd: "tbls_sound pk tsig" and dg: "digest_nonempty env"
    and cd: "codec_ok env" and honest: "\<forall>i \<in> set P. sk_correct pk (sks i) i"
    and quorum: "cc_f c + 1 \<le> int (card (set P))"
    and dist: "distinct (map fst rms)"
    and fresh: "set (map fst rms) \<inter> set (map fst (returned s)) = {}"
    and msgs: "\<forall>(r, ms) \<in> set rms. set (honest_msgs c pk sks env r P) \<subseteq> set ms \<and>
       list_all (msg_ok c env) ms"
  shows "\<exists>s'. sys_run c pk sk env s (concat (map (\<lambda>(r, ms). driver_round r ms) rms)) = Some s' \<and>
    reachable c pk sk env s' \<and> map fst (returned s') = map fst (returned s) @ map fst rms \<and>
    waiting s' = [] \<and> recv_status s' = Running"
  using reach alive nw dist fresh msgs
proof (induction rms arbitrary: s)
  case Nil
  then show ?case by simp
next
  case (Cons rm rms)
  obtain r ms where rm: "rm = (r, ms)" by (cases rm)
  from Cons.prems rm have sent: "set (honest_msgs c pk sks env r P) \<subseteq> set ms"
    and ok: "list_all (msg_ok c env) ms" and fr: "r \<notin> set (map fst (returned s))" by auto
  from driver_round_run [OF Cons.prems(1,2) f0 snd dg cd honest quorum sent ok fr] Cons.prems(3)
  obtain s1 b where run1: "sys_run c pk sk env s (driver_round r ms) = Some s1"
    and ret1: "returned s1 = returned s @ [(r, b)]" and w1: "waiting s1 = []"
    and a1: "recv_status s1 = Running" by auto
  have reach1: "reachable c pk sk env s1" by (rule reachable_run [OF Cons.prems(1) run1])
  have "distinct (map fst rms)" "set (map fst rms) \<inter> set (map fst (returned s1)) = {}"
    "\<forall>(r, ms) \<in> set rms. set (honest_msgs c pk sks env r P) \<subseteq> set ms \<and> list_all (msg_ok c env) ms"
    using Cons.prems(4-6) rm ret1 by auto
  from Cons.IH [OF reach1 a1 w1 this] obtain s' where
    "sys_run c pk sk env s1 (concat (map (\<lambda>(r, ms). driver_round r ms) rms)) = Some s'"
    "reachable c pk sk env s'" "map fst (returned s') = map fst (returned s1) @ map fst rms"
    "waiting s' = []" "recv_status s' = Running" by blast
  with run1 ret1 rm show ?case by (auto simp: sys_run_append)
qed

subsection \<open>Liveness of the driver\<close>

lemma driver_coins_run:
  assumes init: "shared_coin c pk = Inr s0" and f0: "0 \<le> cc_f c" and snd: "tbls_sound pk tsig"
    and dg: "digest_nonempty env" and cd: "codec_ok env"
    and honest: "\<forall>i \<in> set P. sk_correct pk (sks i) i" and quorum: "cc_f c + 1 \<le> int (card (set P))"
    and msgs: "list_all2 (\<lambda>k ms. set (honest_msgs c pk sks env (int k) P) \<subseteq> set ms \<and>
       list_all (msg_ok c env) ms) [0..<10] mss"
  shows "\<exists>s. sys_run c pk sk env s0 (run_common_coin_events mss) = Some s \<and>
    map fst (returned s) = map int [0..<10] \<and>
    list_all (\<lambda>(r, b). ideal_coin env pk tsig (cc_sid c) r = Some b) (returned s) \<and>
    recv_status s = Cancelled \<and> waiting s = [] \<and>
    driver_log s = map (\<lambda>k. coin_log_line (int k) (the (ideal_coin env pk tsig (cc_sid c) (int k)))) [0..<10]"
proof -
  let ?rms = "map (\<lambda>(i, ms). (int i, ms)) (zip [0..<10] mss)"
  have len: "length mss = 10" using list_all2_lengthD [OF msgs] by simp
  have ev: "run_common_coin_events mss = concat (map (\<lambda>(r, ms). driver_round r ms) ?rms) @ [Cancel]"
    by (simp add: run_common_coin_events_def split_def comp_def)
  have "map fst ?rms = map int (map fst (zip [0..<10] mss))" by (simp add: split_def)
  also have "\<dots> = map int [0..<10]" using len by (simp add: map_fst_zip)
  finally have fst_rms: "map fst ?rms = map int [0..<10]" .
  have reach0: "reachable c pk sk env s0" by (rule reachable.init [OF init])
  from init have s0: "returned s0 = []" "waiting s0 = []" "recv_status s0 = Running"
    by (auto simp: shared_coin_def split: if_splits)
  have dist: "distinct (map fst ?rms)" unfolding fst_rms by (simp add: distinct_map inj_on_def)
  have "\<forall>(r, ms) \<in> set ?rms. set (honest_msgs c pk sks env r P) \<subseteq> set ms \<and> list_all (msg_ok c env) ms"
    using msgs by (auto simp: list_all2_iff)
  from driver_rounds_run [OF reach0 s0(3,2) f0 snd dg cd honest quorum dist _ this] s0(1)
  obtain s1 where run1: "sys_run c pk sk env s0 (concat (map (\<lambda>(r, ms). driver_round r ms) ?rms)) = Some s1"
    and reach1: "reachable c pk sk env s1" and ret: "map fst (returned s1) = map int [0..<10]"
    and w1: "waiting s1 = []" and a1: "recv_status s1 = Running"
    using fst_rms by auto
  let ?s2 = "s1\<lparr>recv_status := Cancelled\<rparr>"
  have run: "sys_run c pk sk env s0 (run_common_coin_events mss) = Some ?s2"
    using run1 a1 by (simp add: ev sys_run_append recv_cancel_def)
  from reachable_values_ideal [OF reachable_run [OF reach0 run] snd]
  have ideal: "list_all (\<lambda>(r, b). ideal_coin env pk tsig (cc_sid c) r = Some b) (returned ?s2)"
    by (auto simp: values_ideal_def list_all_iff)
  from pairs_by_fst [OF _ ideal] ret
  have "returned ?s2 = map (\<lambda>a. (a, the (ideal_coin env pk tsig (cc_sid c) a))) (map int [0..<10])" by simp
  then have "driver_log ?s2 = map (\<lambda>k. coin_log_line (int k) (the (ideal_coin env pk tsig (cc_sid c) (int k)))) [0..<10]"
    by (simp add: driver_log_def)
  with run ret w1 ideal show ?thesis by auto
qed

text \<open>C18: the driver obtains all ten coins. If the scheme is sound and \<open>f + 1\<close>
  honest parties' shares of round \<open>i\<close> reach the receive task among other well-formed
  messages while the driver waits on round \<open>i\<close> (shares of later rounds may come
  early), then \<^verbatim>\<open>run_common_coin\<close> runs to its end: it is handed the coins of
  rounds 0 to 9 in order, each the ideal coin of its round, and leaves the receive task
  cancelled with no caller waiting.\<close>

theorem run_common_coin_coins:
  assumes init: "shared_coin c pk = Inr s0" and f0: "0 \<le> cc_f c" and snd: "tbls_sound pk tsig"
    and dg: "digest_nonempty env" and cd: "codec_ok env"
    and honest: "\<forall>i \<in> set P. sk_correct pk (sks i) i" and quorum: "cc_f c + 1 \<le> int (card (set P))"
    and msgs: "list_all2 (\<lambda>k ms. set (honest_msgs c pk sks env (int k) P) \<subseteq> set ms \<and>
       list_all (msg_ok c env) ms) [0..<10] mss"
  shows "\<exists>s. sys_run c pk sk env s0 (run_common_coin_events mss) = Some s \<and>
    map fst (returned s) = map int [0..<10] \<and>
    list_all (\<lambda>(r, b). ideal_coin env pk tsig (cc_sid c) r = Some b) (returned s) \<and>
    recv_status s = Cancelled \<and> waiting s = [] \<and>
    driver_log s = map (\<lambda>k. coin_log_line (int k) (the (ideal_coin env pk tsig (cc_sid c) (int k)))) [0..<10]"
  by (rule driver_coins_run [OF init f0 snd dg cd honest quorum msgs])

theorem run_common_coin_coins_witness:
  "\<exists>s. sys_run demo_cfg demo_pk (toy_sk 0) toy_env demo_init (run_common_coin_events demo_driver_msgs) = Some s \<and>
    map fst (returned s) = map int [0..<10] \<and>
    list_all (\<lambda>(r, b). ideal_coin toy_env demo_pk (\<lambda>h. h) ''sidA'' r = Some b) (returned s) \<and>
    recv_status s = Cancelled \<and> waiting s = [] \<and>
    driver_log s = map (\<lambda>k. coin_log_line (int k) (the (ideal_coin toy_env demo_pk (\<lambda>h. h) ''sidA'' (int k)))) [0..<10]"
proof -
  have "\<exists>s. sys_run demo_cfg demo_pk (toy_sk 0) toy_env demo_init (run_common_coin_events demo_driver_msgs) = Some s \<and>
    map fst (returned s) = map int [0..<10] \<and>
    list_all (\<lambda>(r, b). ideal_coin toy_env demo_pk (\<lambda>h. h) (cc_sid demo_cfg) r = Some b) (returned s) \<and>
    recv_status s = Cancelled \<and> waiting s = [] \<and>
    driver_log s = map (\<lambda>k. coin_log_line (int k) (the (ideal_coin toy_env demo_pk (\<lambda>h. h) (cc_sid demo_cfg) (int k)))) [0..<10]"
  proof (rule run_common_coin_coins [where P = "[0, 1]" and sks = toy_sk])
    show "shared_coin demo_cfg demo_pk = Inr demo_init"
      by (simp add: shared_coin_def demo_init_def demo_cfg_def demo_pk_def toy_pk_def)
    show "0 \<le> cc_f demo_cfg" by (simp add: demo_cfg_def)
    show "tbls_sound demo_pk (\<lambda>h. h)" unfolding demo_pk_def by (rule toy_pk_sound) simp
    show "digest_nonempty toy_env" by (rule toy_env_digest)
    show "codec_ok toy_env" by (rule toy_env_codec)
    show "\<forall>i \<in> set [0, 1]. sk_correct demo_pk (toy_sk i) i"
      unfolding demo_pk_def using toy_sk_correct by blast
    show "cc_f demo_cfg + 1 \<le> int (card (set [0, 1 :: int]))" by (simp add: demo_cfg_def)
    show "list_all2 (\<lambda>k ms. set (honest_msgs demo_cfg demo_pk toy_sk toy_env (int k) [0, 1]) \<subseteq> set ms \<and>
       list_all (msg_ok demo_cfg toy_env) ms) [0..<10] demo_driver_msgs"
      by code_simp
  qed
  then show ?thesis by (simp add: demo_cfg_def)
qed

end
