(* ===== verification/Coin_Net.thy ===== *)
theory Coin_Net
  imports Coin_Driver
begin

text \<open>
  Several coin instances composed over the transport. Each party of a list \<open>hs\<close> of
  honest parties runs its own coin instance (the system of \<open>Coin_Handle\<close>, with its
  party id and private key); messages in flight are (destination, sender, payload) triples;
  \<^verbatim>\<open>get_coin\<close> puts its share in flight to every party through \<^verbatim>\<open>broadcast\<close>;
  the parties outside \<open>hs\<close> are Byzantine and may put anything in flight under their
  own ids. The transport is modelled from its interface in the spec (section 6): reliable,
  unordered delivery tagged with the sender.
\<close>

type_synonym payload = "string \<times> round \<times> bytes"

record 'sig net_state =
  parties :: "party \<Rightarrow> 'sig coin_sys"
  inflight :: "(party \<times> party \<times> payload) list"

datatype net_event =
    NCall party round
  | NDeliver party party payload
  | NWake party round
  | NCancel party
  | NInject party party payload

subsection \<open>The network\<close>

text \<open>\<^verbatim>\<open>broadcast(o)\<close> of \<^verbatim>\<open>run_common_coin\<close> (lines 110 to 112):
  \<^verbatim>\<open>send(i, o)\<close> for \<^verbatim>\<open>i in range(n)\<close>, the sender included; the transport tags
  each message with the sending party, as \<^verbatim>\<open>recv()\<close> returns it.\<close>

definition broadcast_sends :: "int \<Rightarrow> party \<Rightarrow> payload \<Rightarrow> (party \<times> party \<times> payload) list" where
  "broadcast_sends n p x = map (\<lambda>i. (int i, p, x)) [0..<nat n]"

definition party_cfg :: "coin_config \<Rightarrow> party \<Rightarrow> coin_config" where
  "party_cfg c p = c\<lparr>cc_pid := p\<rparr>"

text \<open>Party \<open>p\<close> runs \<^verbatim>\<open>shared_coin\<close> with its own id (line 114); one step of
  its coin instance, the others unchanged.\<close>

definition party_step ::
  "coin_config \<Rightarrow> ('sig, 'h) tbls_pk \<Rightarrow> (party \<Rightarrow> ('sig, 'h) tbls_sk) \<Rightarrow> 'sig tbls_env
   \<Rightarrow> 'sig net_state \<Rightarrow> party \<Rightarrow> coin_event \<Rightarrow> 'sig net_state option" where
  "party_step c pk sks env N p e =
     map_option (\<lambda>s'. N\<lparr>parties := (parties N)(p := s')\<rparr>)
       (sys_step (party_cfg c p) pk (sks p) env (parties N p) e)"

text \<open>A step of the whole network: an honest party calls \<^verbatim>\<open>get_coin\<close> and
  broadcasts its share, a message in flight is delivered (to an honest party's receive
  task, or dropped at a Byzantine one), an honest caller resumes, an honest receive task
  is cancelled, or a Byzantine party puts any message into flight under its own id.\<close>

fun net_step ::
  "coin_config \<Rightarrow> ('sig, 'h) tbls_pk \<Rightarrow> (party \<Rightarrow> ('sig, 'h) tbls_sk) \<Rightarrow> 'sig tbls_env \<Rightarrow> party list
   \<Rightarrow> 'sig net_state \<Rightarrow> net_event \<Rightarrow> 'sig net_state option" where
  "net_step c pk sks env hs N (NCall p r) =
     (if p \<notin> set hs then None
      else map_option
        (\<lambda>N'. N'\<lparr>inflight := inflight N @
                  broadcast_sends (cc_n c) p (coin_broadcast_msg (party_cfg c p) pk (sks p) env r)\<rparr>)
        (party_step c pk sks env N p (Call r)))"
| "net_step c pk sks env hs N (NDeliver d s x) =
     (if (d, s, x) \<notin> set (inflight N) then None
      else if d \<in> set hs then
        map_option (\<lambda>N'. N'\<lparr>inflight := remove1 (d, s, x) (inflight N)\<rparr>)
          (party_step c pk sks env N d (Deliver (s, x)))
      else Some (N\<lparr>inflight := remove1 (d, s, x) (inflight N)\<rparr>))"
| "net_step c pk sks env hs N (NWake p r) =
     (if p \<notin> set hs then None else party_step c pk sks env N p (Wake r))"
| "net_step c pk sks env hs N (NCancel p) =
     (if p \<notin> set hs then None else party_step c pk sks env N p Cancel)"
| "net_step c pk sks env hs N (NInject d s x) =
     (if s \<in> set hs then None else Some (N\<lparr>inflight := inflight N @ [(d, s, x)]\<rparr>))"

fun net_run ::
  "coin_config \<Rightarrow> ('sig, 'h) tbls_pk \<Rightarrow> (party \<Rightarrow> ('sig, 'h) tbls_sk) \<Rightarrow> 'sig tbls_env \<Rightarrow> party list
   \<Rightarrow> 'sig net_state \<Rightarrow> net_event list \<Rightarrow> 'sig net_state option" where
  "net_run c pk sks env hs N [] = Some N"
| "net_run c pk sks env hs N (e # es) =
     (case net_step c pk sks env hs N e of None \<Rightarrow> None | Some N' \<Rightarrow> net_run c pk sks env hs N' es)"

inductive net_reachable ::
  "coin_config \<Rightarrow> ('sig, 'h) tbls_pk \<Rightarrow> (party \<Rightarrow> ('sig, 'h) tbls_sk) \<Rightarrow> 'sig tbls_env \<Rightarrow> party list
   \<Rightarrow> 'sig net_state \<Rightarrow> bool"
  for c pk sks env hs where
  init: "(\<forall>p \<in> set hs. shared_coin (party_cfg c p) pk = Inr (parties N p)) \<Longrightarrow> inflight N = [] \<Longrightarrow>
     net_reachable c pk sks env hs N"
| step: "net_reachable c pk sks env hs N \<Longrightarrow> net_step c pk sks env hs N e = Some N' \<Longrightarrow>
     net_reachable c pk sks env hs N'"

subsection \<open>Three honest parties and one Byzantine, for the witnesses\<close>

definition demo_hs :: "party list" where
  "demo_hs = [0, 1, 2]"

definition demo_net0 :: "byte net_state" where
  "demo_net0 = \<lparr>parties = (\<lambda>_. demo_init), inflight = []\<rparr>"

definition demo_net_calls :: "net_event list" where
  "demo_net_calls = [NCall 0 0, NCall 1 0, NInject 0 3 (''COIN'', 0, [99]), NCall 2 0]"

subsection \<open>Lemmas\<close>

lemma party_cfg_sid [simp]: "cc_sid (party_cfg c p) = cc_sid c"
  and party_cfg_n [simp]: "cc_n (party_cfg c p) = cc_n c"
  and party_cfg_f [simp]: "cc_f (party_cfg c p) = cc_f c"
  by (simp_all add: party_cfg_def)

lemma round_digest_party [simp]: "round_digest (party_cfg c p) pk r = round_digest c pk r"
  by (simp add: round_digest_def)

lemma coin_broadcast_msg_party [simp]:
  "coin_broadcast_msg (party_cfg c p) pk sk env r = coin_broadcast_msg c pk sk env r"
  by (simp add: coin_broadcast_msg_def)

lemma msg_ok_party [simp]: "msg_ok (party_cfg c p) env m = msg_ok c env m"
  by (simp add: msg_ok_def)

lemma party_step_Some:
  assumes "party_step c pk sks env N p e = Some N'"
  shows "parties N' q = parties N q \<or> sys_step (party_cfg c q) pk (sks q) env (parties N q) e = Some (parties N' q)"
  using assms by (cases "q = p") (auto simp: party_step_def)

lemma net_step_cases:
  assumes "net_step c pk sks env hs N e = Some N'"
  shows "parties N' = parties N \<or> (\<exists>p ev N1. party_step c pk sks env N p ev = Some N1 \<and> parties N' = parties N1)"
  using assms by (cases e) (fastforce split: if_splits)+

lemma net_step_party:
  assumes "net_step c pk sks env hs N e = Some N'"
  shows "parties N' q = parties N q \<or>
    (\<exists>ev. sys_step (party_cfg c q) pk (sks q) env (parties N q) ev = Some (parties N' q))"
  using net_step_cases [OF assms]
proof
  assume "\<exists>p ev N1. party_step c pk sks env N p ev = Some N1 \<and> parties N' = parties N1"
  then obtain p ev N1 where "party_step c pk sks env N p ev = Some N1" "parties N' = parties N1" by blast
  with party_step_Some [of c pk sks env N p ev N1 q] show ?thesis by auto
qed simp

lemma net_reachable_party:
  assumes "net_reachable c pk sks env hs N" "q \<in> set hs"
  shows "reachable (party_cfg c q) pk (sks q) env (parties N q)"
  using assms
proof (induction rule: net_reachable.induct)
  case (init N)
  then show ?case by (auto intro: reachable.init)
next
  case (step N e N')
  from net_step_party [OF step.hyps(2), of q] step.IH [OF step.prems] show ?case
    by (auto intro: reachable.step)
qed

lemma net_run_append:
  "net_run c pk sks env hs N (xs @ ys) =
     (case net_run c pk sks env hs N xs of None \<Rightarrow> None | Some N' \<Rightarrow> net_run c pk sks env hs N' ys)"
  by (induction xs arbitrary: N) (auto split: option.splits)

lemma net_run_appendI:
  "net_run c pk sks env hs N xs = Some N1 \<Longrightarrow> net_run c pk sks env hs N1 ys = Some N2 \<Longrightarrow>
     net_run c pk sks env hs N (xs @ ys) = Some N2"
  by (simp add: net_run_append)

lemma net_reachable_run:
  "net_reachable c pk sks env hs N \<Longrightarrow> net_run c pk sks env hs N es = Some N' \<Longrightarrow>
     net_reachable c pk sks env hs N'"
proof (induction es arbitrary: N)
  case (Cons e es)
  then show ?case by (auto split: option.splits intro: net_reachable.step)
qed simp

lemma net_run_deliver_to:
  assumes "p \<in> set hs" "distinct ms" "\<forall>(s, x) \<in> set ms. (p, s, x) \<in> set (inflight N)"
    "sys_run (party_cfg c p) pk (sks p) env (parties N p) (map Deliver ms) = Some s'"
  shows "\<exists>N'. net_run c pk sks env hs N (map (\<lambda>(s, x). NDeliver p s x) ms) = Some N' \<and> parties N' p = s' \<and>
    (\<forall>q. q \<noteq> p \<longrightarrow> parties N' q = parties N q) \<and>
    (\<forall>y \<in> set (inflight N). fst y \<noteq> p \<longrightarrow> y \<in> set (inflight N'))"
  using assms(2-4)
proof (induction ms arbitrary: N)
  case Nil
  then show ?case by simp
next
  case (Cons m ms)
  obtain s x where m: "m = (s, x)" by (cases m)
  from Cons.prems(3) m obtain s1 where
    st: "sys_step (party_cfg c p) pk (sks p) env (parties N p) (Deliver (s, x)) = Some s1"
    and rest: "sys_run (party_cfg c p) pk (sks p) env s1 (map Deliver ms) = Some s'"
    by (auto split: option.splits)
  let ?N1 = "N\<lparr>parties := (parties N)(p := s1), inflight := remove1 (p, s, x) (inflight N)\<rparr>"
  from Cons.prems(2) m have inf: "(p, s, x) \<in> set (inflight N)" by simp
  have step: "net_step c pk sks env hs N (NDeliver p s x) = Some ?N1"
    using assms(1) inf st by (simp add: party_step_def del: sys_step.simps)
  have "\<forall>(s', x') \<in> set ms. (p, s', x') \<in> set (inflight ?N1)"
  proof
    fix m' assume m': "m' \<in> set ms"
    obtain s' x' where m'e: "m' = (s', x')" by (cases m')
    with m' Cons.prems(1) m have ne: "(p, s', x') \<noteq> (p, s, x)" by auto
    from Cons.prems(2) m' m'e have "(p, s', x') \<in> set (inflight N)" by auto
    with ne m'e show "case m' of (s', x') \<Rightarrow> (p, s', x') \<in> set (inflight ?N1)" by (simp add: in_set_remove1)
  qed
  from Cons.IH [OF _ this] Cons.prems(1) rest obtain N' where
    "net_run c pk sks env hs ?N1 (map (\<lambda>(s, x). NDeliver p s x) ms) = Some N'" "parties N' p = s'"
    "\<forall>q. q \<noteq> p \<longrightarrow> parties N' q = parties ?N1 q"
    "\<forall>y \<in> set (inflight ?N1). fst y \<noteq> p \<longrightarrow> y \<in> set (inflight N')"
    by auto
  moreover have "\<forall>y \<in> set (inflight N). fst y \<noteq> p \<longrightarrow> y \<in> set (inflight ?N1)"
    by (auto simp: in_set_remove1)
  ultimately show ?case using step m by auto
qed

lemma demo_net0_reachable: "net_reachable demo_cfg demo_pk toy_sk toy_env demo_hs demo_net0"
  by (rule net_reachable.init)
    (auto simp: demo_hs_def demo_net0_def shared_coin_def party_cfg_def demo_init_def demo_cfg_def
      demo_pk_def toy_pk_def)

lemma demo_pk_sound: "tbls_sound demo_pk (\<lambda>h. h)"
  unfolding demo_pk_def by (rule toy_pk_sound) simp

lemma net_deliver_wake:
  assumes reach: "net_reachable c pk sks env hs N" and f0: "0 \<le> cc_f c" and snd: "tbls_sound pk tsig"
    and dg: "digest_nonempty env" and cd: "codec_ok env" and p: "p \<in> set hs"
    and alive: "recv_status (parties N p) = Running" and w: "r \<in> set (waiting (parties N p))"
    and fresh: "r \<notin> set (map fst (returned (parties N p)))" and r0: "0 \<le> r"
    and dP: "distinct P" and keys: "\<forall>i \<in> set P. sk_correct pk (sks i) i \<and> py_in_range i (cc_n c)"
    and quorum: "cc_f c + 1 \<le> int (length P)"
    and fl: "\<forall>i \<in> set P. (p, i, coin_broadcast_msg c pk (sks i) env r) \<in> set (inflight N)"
  shows "\<exists>N' b. net_run c pk sks env hs N
      (map (\<lambda>i. NDeliver p i (coin_broadcast_msg c pk (sks i) env r)) P @ [NWake p r]) = Some N' \<and>
    returned (parties N' p) = returned (parties N p) @ [(r, b)] \<and> ideal_coin env pk tsig (cc_sid c) r = Some b \<and>
    (\<forall>q. q \<noteq> p \<longrightarrow> parties N' q = parties N q) \<and>
    (\<forall>y \<in> set (inflight N). fst y \<noteq> p \<longrightarrow> y \<in> set (inflight N'))"
proof -
  let ?c = "party_cfg c p"
  let ?ms = "honest_msgs c pk sks env r P"
  have lr: "reachable ?c pk (sks p) env (parties N p)" by (rule net_reachable_party [OF reach p])
  have sent: "set (honest_msgs ?c pk sks env r P) \<subseteq> set ?ms" by (simp add: honest_msgs_def)
  have ok: "list_all (msg_ok ?c env) ?ms"
    using keys cd r0 by (auto simp: honest_msgs_def list_all_iff msg_ok_def coin_broadcast_msg_def codec_ok_def)
  have q: "cc_f ?c + 1 \<le> int (card (set P))" using quorum dP by (simp add: distinct_card)
  from quorum_wake_run [OF lr alive _ snd dg cd _ q sent ok fresh w] f0 keys
  obtain s' b where run: "sys_run ?c pk (sks p) env (parties N p) (map Deliver ?ms @ [Wake r]) = Some s'"
    and ret: "returned s' = returned (parties N p) @ [(r, b)]" by auto
  from run obtain s1 where d: "sys_run ?c pk (sks p) env (parties N p) (map Deliver ?ms) = Some s1"
    and wk: "sys_run ?c pk (sks p) env s1 [Wake r] = Some s'"
    by (auto simp: sys_run_append split: option.splits)
  have dms: "distinct ?ms" using dP by (simp add: honest_msgs_def distinct_map inj_on_def)
  have inms: "\<forall>(s, x) \<in> set ?ms. (p, s, x) \<in> set (inflight N)" using fl by (auto simp: honest_msgs_def)
  from net_run_deliver_to [where ms = ?ms and N = N and p = p and c = c and sks = sks and pk = pk and env = env and hs = hs, OF p dms inms d] obtain N1 where
    n1: "net_run c pk sks env hs N (map (\<lambda>(s, x). NDeliver p s x) ?ms) = Some N1" and pN1: "parties N1 p = s1"
    and fr: "\<forall>q. q \<noteq> p \<longrightarrow> parties N1 q = parties N q"
      "\<forall>y \<in> set (inflight N). fst y \<noteq> p \<longrightarrow> y \<in> set (inflight N1)"
    by blast
  have evs: "map (\<lambda>(s, x). NDeliver p s x) ?ms = map (\<lambda>i. NDeliver p i (coin_broadcast_msg c pk (sks i) env r)) P"
    by (simp add: honest_msgs_def)
  from wk obtain s2 where "sys_step ?c pk (sks p) env s1 (Wake r) = Some s2" "s2 = s'"
    by (auto split: option.splits)
  then have "net_step c pk sks env hs N1 (NWake p r) = Some (N1\<lparr>parties := (parties N1)(p := s')\<rparr>)"
    using p pN1 by (simp add: party_step_def del: sys_step.simps)
  with n1 evs have nr: "net_run c pk sks env hs N
      (map (\<lambda>i. NDeliver p i (coin_broadcast_msg c pk (sks i) env r)) P @ [NWake p r]) =
      Some (N1\<lparr>parties := (parties N1)(p := s')\<rparr>)"
    by (simp add: net_run_append)
  have "reachable ?c pk (sks p) env s'" by (rule reachable_run [OF lr run])
  from reachable_values_ideal [OF this snd] ret have "ideal_coin env pk tsig (cc_sid c) r = Some b"
    by (auto simp: values_ideal_def)
  with nr ret fr show ?thesis by auto
qed

lemma net_resume_all_run:
  assumes f0: "0 \<le> cc_f c" and snd: "tbls_sound pk tsig"
    and dg: "digest_nonempty env" and cd: "codec_ok env" and r0: "0 \<le> r"
    and dP: "distinct P" and keys: "\<forall>i \<in> set P. sk_correct pk (sks i) i \<and> py_in_range i (cc_n c)"
    and quorum: "cc_f c + 1 \<le> int (length P)"
  shows "net_reachable c pk sks env hs N \<Longrightarrow> distinct Q \<Longrightarrow> set Q \<subseteq> set hs \<Longrightarrow>
    \<forall>q \<in> set Q. recv_status (parties N q) = Running \<and> r \<in> set (waiting (parties N q)) \<and>
      r \<notin> set (map fst (returned (parties N q))) \<and>
      (\<forall>i \<in> set P. (q, i, coin_broadcast_msg c pk (sks i) env r) \<in> set (inflight N)) \<Longrightarrow>
    \<exists>N'. net_run c pk sks env hs N
      (concat (map (\<lambda>q. map (\<lambda>i. NDeliver q i (coin_broadcast_msg c pk (sks i) env r)) P @ [NWake q r]) Q)) = Some N' \<and>
    (\<forall>q \<in> set Q. \<exists>b. (r, b) \<in> set (returned (parties N' q)) \<and> ideal_coin env pk tsig (cc_sid c) r = Some b) \<and>
    (\<forall>q. q \<notin> set Q \<longrightarrow> parties N' q = parties N q)"
proof (induction Q arbitrary: N)
  case Nil
  then show ?case by simp
next
  case (Cons q Q)
  from Cons.prems have hq: "q \<in> set hs" and runq: "recv_status (parties N q) = Running"
    and wq: "r \<in> set (waiting (parties N q))" and fq: "r \<notin> set (map fst (returned (parties N q)))"
    and flq: "\<forall>i \<in> set P. (q, i, coin_broadcast_msg c pk (sks i) env r) \<in> set (inflight N)" by auto
  from net_deliver_wake [OF Cons.prems(1) f0 snd dg cd hq runq wq fq r0 dP keys quorum flq]
  obtain N1 b where run1: "net_run c pk sks env hs N
      (map (\<lambda>i. NDeliver q i (coin_broadcast_msg c pk (sks i) env r)) P @ [NWake q r]) = Some N1"
    and ret1: "returned (parties N1 q) = returned (parties N q) @ [(r, b)]"
    and id1: "ideal_coin env pk tsig (cc_sid c) r = Some b"
    and fr1: "\<forall>q'. q' \<noteq> q \<longrightarrow> parties N1 q' = parties N q'"
    and fl1: "\<forall>y \<in> set (inflight N). fst y \<noteq> q \<longrightarrow> y \<in> set (inflight N1)" by blast
  have reach1: "net_reachable c pk sks env hs N1" by (rule net_reachable_run [OF Cons.prems(1) run1])
  have "\<forall>q' \<in> set Q. recv_status (parties N1 q') = Running \<and> r \<in> set (waiting (parties N1 q')) \<and>
      r \<notin> set (map fst (returned (parties N1 q'))) \<and>
      (\<forall>i \<in> set P. (q', i, coin_broadcast_msg c pk (sks i) env r) \<in> set (inflight N1))"
  proof
    fix q' assume q': "q' \<in> set Q"
    with Cons.prems(2) have ne: "q' \<noteq> q" by auto
    with q' Cons.prems(4) fr1 fl1 show "recv_status (parties N1 q') = Running \<and> r \<in> set (waiting (parties N1 q')) \<and>
      r \<notin> set (map fst (returned (parties N1 q'))) \<and>
      (\<forall>i \<in> set P. (q', i, coin_broadcast_msg c pk (sks i) env r) \<in> set (inflight N1))" by auto
  qed
  from Cons.IH [OF reach1 _ _ this] Cons.prems(2,3) obtain N' where
    run2: "net_run c pk sks env hs N1
      (concat (map (\<lambda>q. map (\<lambda>i. NDeliver q i (coin_broadcast_msg c pk (sks i) env r)) P @ [NWake q r]) Q)) = Some N'"
    and all2: "\<forall>q' \<in> set Q. \<exists>b. (r, b) \<in> set (returned (parties N' q')) \<and> ideal_coin env pk tsig (cc_sid c) r = Some b"
    and fr2: "\<forall>q'. q' \<notin> set Q \<longrightarrow> parties N' q' = parties N1 q'" by auto
  have "q \<notin> set Q" using Cons.prems(2) by simp
  with fr2 ret1 id1 have "\<exists>b. (r, b) \<in> set (returned (parties N' q)) \<and> ideal_coin env pk tsig (cc_sid c) r = Some b"
    by auto
  moreover have "\<forall>q'. q' \<notin> set (q # Q) \<longrightarrow> parties N' q' = parties N q'" using fr1 fr2 by auto
  moreover note net_run_appendI [OF run1 run2]
  ultimately show ?case using all2 by auto
qed

subsection \<open>Properties of the network\<close>

text \<open>C30: every waiting honest party is resumed. If the honest parties of a list
  \<open>Q\<close> all wait on round \<open>r\<close> with running receive tasks, and the round-\<open>r\<close>
  broadcasts of \<open>f + 1\<close> distinct parties with correct keys are in flight to each of
  them, delivering those messages party by party, in any order of the broadcasts, and
  resuming each caller hands every party of \<open>Q\<close> the round's ideal coin.\<close>

theorem net_all_resumed:
  assumes reach: "net_reachable c pk sks env hs N" and f0: "0 \<le> cc_f c" and snd: "tbls_sound pk tsig"
    and dg: "digest_nonempty env" and cd: "codec_ok env" and r0: "0 \<le> r"
    and dQ: "distinct Q" and hQ: "set Q \<subseteq> set hs"
    and waitQ: "\<forall>q \<in> set Q. recv_status (parties N q) = Running \<and> r \<in> set (waiting (parties N q)) \<and>
      r \<notin> set (map fst (returned (parties N q)))"
    and dP: "distinct P" and keys: "\<forall>i \<in> set P. sk_correct pk (sks i) i \<and> py_in_range i (cc_n c)"
    and quorum: "cc_f c + 1 \<le> int (length P)"
    and fl: "\<forall>q \<in> set Q. \<forall>i \<in> set P. (q, i, coin_broadcast_msg c pk (sks i) env r) \<in> set (inflight N)"
  shows "\<exists>N'. net_run c pk sks env hs N
      (concat (map (\<lambda>q. map (\<lambda>i. NDeliver q i (coin_broadcast_msg c pk (sks i) env r)) P @ [NWake q r]) Q)) = Some N' \<and>
    (\<forall>q \<in> set Q. \<exists>b. (r, b) \<in> set (returned (parties N' q)) \<and> ideal_coin env pk tsig (cc_sid c) r = Some b)"
  using net_resume_all_run [OF f0 snd dg cd r0 dP keys quorum reach dQ hQ] waitQ fl by blast

theorem net_all_resumed_witness:
  "\<exists>N N'. net_run demo_cfg demo_pk toy_sk toy_env demo_hs demo_net0 demo_net_calls = Some N \<and>
     net_run demo_cfg demo_pk toy_sk toy_env demo_hs N
       (concat (map (\<lambda>q. map (\<lambda>i. NDeliver q i (coin_broadcast_msg demo_cfg demo_pk (toy_sk i) toy_env 0)) [0, 1]
          @ [NWake q 0]) [0, 1, 2])) = Some N' \<and>
     (\<forall>q \<in> set [0, 1, 2]. \<exists>b. (0, b) \<in> set (returned (parties N' q)) \<and>
        ideal_coin toy_env demo_pk (\<lambda>h. h) ''sidA'' 0 = Some b)"
proof -
  have "case net_run demo_cfg demo_pk toy_sk toy_env demo_hs demo_net0 demo_net_calls of
      Some N \<Rightarrow> (\<forall>q \<in> set [0, 1, 2]. recv_status (parties N q) = Running \<and> 0 \<in> set (waiting (parties N q)) \<and>
          0 \<notin> set (map fst (returned (parties N q)))) \<and>
        (\<forall>q \<in> set [0, 1, 2]. \<forall>i \<in> set [0, 1].
          (q, i, coin_broadcast_msg demo_cfg demo_pk (toy_sk i) toy_env 0) \<in> set (inflight N))
    | None \<Rightarrow> False"
    by code_simp
  from some_caseE [OF this] obtain N where run: "net_run demo_cfg demo_pk toy_sk toy_env demo_hs demo_net0 demo_net_calls = Some N"
    and hw: "\<forall>q \<in> set [0, 1, 2]. recv_status (parties N q) = Running \<and> 0 \<in> set (waiting (parties N q)) \<and>
          0 \<notin> set (map fst (returned (parties N q)))"
    and hf: "\<forall>q \<in> set [0, 1, 2]. \<forall>i \<in> set [0, 1].
          (q, i, coin_broadcast_msg demo_cfg demo_pk (toy_sk i) toy_env 0) \<in> set (inflight N)"
    by blast
  have reach: "net_reachable demo_cfg demo_pk toy_sk toy_env demo_hs N"
    by (rule net_reachable_run [OF demo_net0_reachable run])
  have keys: "\<forall>i \<in> set [0, 1 :: int]. sk_correct demo_pk (toy_sk i) i \<and> py_in_range i (cc_n demo_cfg)"
    using toy_sk_correct by (simp add: demo_pk_def demo_cfg_def py_in_range_def)
  from net_all_resumed [OF reach _ demo_pk_sound toy_env_digest toy_env_codec _ _ _ hw _ keys _ hf]
  obtain N' where "net_run demo_cfg demo_pk toy_sk toy_env demo_hs N
       (concat (map (\<lambda>q. map (\<lambda>i. NDeliver q i (coin_broadcast_msg demo_cfg demo_pk (toy_sk i) toy_env 0)) [0, 1]
          @ [NWake q 0]) [0, 1, 2])) = Some N'"
    "\<forall>q \<in> set [0, 1, 2]. \<exists>b. (0, b) \<in> set (returned (parties N' q)) \<and>
        ideal_coin toy_env demo_pk (\<lambda>h. h) (cc_sid demo_cfg) 0 = Some b"
    by (auto simp: demo_cfg_def demo_hs_def)
  with run show ?thesis by (auto simp: demo_cfg_def)
qed

end
