(* ===== verification/Coin_Task.thy ===== *)
theory Coin_Task
  imports Coin_Engine "HOL-Library.Stream"
begin

text \<open>
  The receive task as the code writes it: \<^verbatim>\<open>while True\<close> over the transport's
  \<^verbatim>\<open>receive()\<close> (commoncoin.py lines 36 to 80), an unbounded source modelled as an
  infinite stream of messages. \<open>recv_task\<close> is a \<open>partial_function (option)\<close>:
  \<open>None\<close> is a task that never returns, \<open>Some (e, st)\<close> a task that ends by
  raising \<open>e\<close> in state \<open>st\<close>. On a finite prefix it agrees with \<open>recv_loop\<close>
  of \<open>Coin_Engine\<close>; with a sound scheme it returns exactly when the stream carries a
  malformed message, and otherwise serves forever.
\<close>

partial_function (option) recv_task ::
  "coin_config \<Rightarrow> ('sig, 'h) tbls_pk \<Rightarrow> 'sig tbls_env \<Rightarrow> 'sig coin_state \<Rightarrow> coin_msg stream
   \<Rightarrow> (recv_error \<times> 'sig coin_state) option" where
  "recv_task c pk env st ms =
     (case recv_step c pk env st (shd ms) of
        Inl (e, st') \<Rightarrow> Some (e, st')
      | Inr (st', _) \<Rightarrow> recv_task c pk env st' (stl ms))"

subsection \<open>Lemmas\<close>

lemma recv_step_Inl_sound:
  assumes "engine_inv c pk st" "config_ok c pk" "tbls_sound pk tsig" "digest_nonempty env"
    "recv_step c pk env st m = Inl (e, st')"
  shows "st' = st \<and> e \<in> {ShareDeserializeError, SenderOutOfRange, NegativeRound} \<and> \<not> msg_ok c env m"
proof -
  obtain i t r bs where m: "m = (i, t, r, bs)" by (cases m rule: prod_cases4)
  from assms(5) m have step: "recv_step c pk env st (i, t, r, bs) = Inl (e, st')" by simp
  then show ?thesis
  proof (cases rule: recv_step_Inl)
    case early
    with m show ?thesis by simp
  next
    case (fatal sig)
    then have "msg_ok c env (i, t, r, bs)" by (simp add: msg_ok_def)
    from recv_step_total_tuple [OF assms(1-4) this] step show ?thesis by simp
  qed
qed

lemma recv_task_returns_bad:
  fixes pk :: "('sig, 'h) tbls_pk" and env :: "'sig tbls_env"
  assumes cfg: "config_ok c pk" and snd: "tbls_sound pk tsig" and dg: "digest_nonempty env"
    and ret: "recv_task c pk env st ms = Some y"
  shows "engine_inv c pk st \<longrightarrow> (\<exists>n. \<not> msg_ok c env (ms !! n))"
proof -
  have "c = c \<longrightarrow> pk = pk \<longrightarrow> env = env \<longrightarrow> engine_inv c pk st \<longrightarrow> (\<exists>n. \<not> msg_ok c env (ms !! n))"
  proof (rule recv_task.raw_induct
    [where P = "\<lambda>c' pk' env' st ms y. c' = c \<longrightarrow> pk' = pk \<longrightarrow> env' = env \<longrightarrow>
       engine_inv c pk st \<longrightarrow> (\<exists>n. \<not> msg_ok c env (ms !! n))", OF _ ret])
  fix f :: "coin_config \<Rightarrow> ('sig, 'h) tbls_pk \<Rightarrow> 'sig tbls_env \<Rightarrow> 'sig coin_state \<Rightarrow> coin_msg stream
     \<Rightarrow> (recv_error \<times> 'sig coin_state) option"
  fix c' pk' env' st ms y
  assume IH: "\<And>c' pk' env' st ms y. f c' pk' env' st ms = Some y \<Longrightarrow> c' = c \<longrightarrow> pk' = pk \<longrightarrow>
       env' = env \<longrightarrow> engine_inv c pk st \<longrightarrow> (\<exists>n. \<not> msg_ok c env (ms !! n))"
    and step: "(case recv_step c' pk' env' st (shd ms) of Inl (e, st') \<Rightarrow> Some (e, st')
       | Inr (st', _) \<Rightarrow> f c' pk' env' st' (stl ms)) = Some y"
  show "c' = c \<longrightarrow> pk' = pk \<longrightarrow> env' = env \<longrightarrow> engine_inv c pk st \<longrightarrow>
    (\<exists>n. \<not> msg_ok c env (ms !! n))"
  proof (intro impI)
  assume eqs: "c' = c" "pk' = pk" "env' = env" and inv: "engine_inv c pk st"
  show "\<exists>n. \<not> msg_ok c env (ms !! n)"
  proof (cases "recv_step c pk env st (shd ms)")
    case (Inl a)
    obtain e st' where "a = (e, st')" by (cases a)
    with Inl recv_step_Inl_sound [OF inv cfg snd dg] have "\<not> msg_ok c env (ms !! 0)" by fastforce
    then show ?thesis by blast
  next
    case (Inr a)
    obtain st' out where a: "a = (st', out)" by (cases a)
    with Inr step eqs have "f c pk env st' (stl ms) = Some y" by simp
    moreover have "engine_inv c pk st'" using recv_step_engine_inv [OF inv] Inr a by blast
    ultimately obtain n where "\<not> msg_ok c env (stl ms !! n)" using IH by blast
    then have "\<not> msg_ok c env (ms !! Suc n)" by simp
    then show ?thesis by blast
  qed
  qed
  qed
  then show ?thesis by simp
qed

lemma recv_step_malformed:
  "\<not> msg_ok c env m \<Longrightarrow>
     \<exists>e. recv_step c pk env st m = Inl (e, st) \<and> e \<in> {ShareDeserializeError, SenderOutOfRange, NegativeRound}"
  by (cases m rule: prod_cases4) (auto simp: msg_ok_def recv_step_def split: option.splits)

subsection \<open>Properties of the receive task\<close>

text \<open>C19: termination on malformed input. With a sound scheme, a receive task started
  in a state satisfying the ledger invariant returns if some message of the stream is
  malformed (undeserialisable bytes, a sender outside \<^verbatim>\<open>range(n)\<close>, a negative
  round): it ends with one of the three Byzantine exceptions, at that message or before.\<close>

theorem recv_task_stops:
  assumes cfg: "config_ok c pk" and snd: "tbls_sound pk tsig" and dg: "digest_nonempty env"
    and inv: "engine_inv c pk st" and bad: "\<not> msg_ok c env (ms !! n)"
  shows "\<exists>e st'. recv_task c pk env st ms = Some (e, st') \<and>
    e \<in> {ShareDeserializeError, SenderOutOfRange, NegativeRound}"
  using inv bad
proof (induction n arbitrary: st ms)
  case 0
  from recv_step_malformed [of c env "shd ms" pk st] 0 obtain e where
    "recv_step c pk env st (shd ms) = Inl (e, st)" "e \<in> {ShareDeserializeError, SenderOutOfRange, NegativeRound}"
    by auto
  then show ?case by (subst recv_task.simps) simp
next
  case (Suc n)
  show ?case
  proof (cases "recv_step c pk env st (shd ms)")
    case (Inl a)
    obtain e st' where a: "a = (e, st')" by (cases a)
    with Inl recv_step_Inl_sound [OF Suc.prems(1) cfg snd dg] show ?thesis
      by (subst recv_task.simps) auto
  next
    case (Inr a)
    obtain st' out where a: "a = (st', out)" by (cases a)
    have "engine_inv c pk st'" using recv_step_engine_inv [OF Suc.prems(1)] Inr a by blast
    from Suc.IH [OF this] Suc.prems(2) Inr a show ?thesis
      by (subst recv_task.simps) simp
  qed
qed

theorem recv_task_stops_witness:
  "\<exists>e st'. recv_task demo_cfg demo_pk toy_env init_coin_state
       (demo_share 0 0 ## (7, ''COIN'', 0, [1]) ## sconst (demo_share 1 0)) = Some (e, st') \<and>
     e \<in> {ShareDeserializeError, SenderOutOfRange, NegativeRound}"
proof (rule recv_task_stops [where n = 1])
  show "config_ok demo_cfg demo_pk" by (simp add: config_ok_def demo_cfg_def demo_pk_def toy_pk_def)
  show "tbls_sound demo_pk (\<lambda>h. h)" unfolding demo_pk_def by (rule toy_pk_sound) simp
  show "digest_nonempty toy_env" by (rule toy_env_digest)
  show "engine_inv demo_cfg demo_pk init_coin_state" by (rule engine_inv_init)
  have "\<not> msg_ok demo_cfg toy_env (7, ''COIN'', 0, [1])" by code_simp
  then show "\<not> msg_ok demo_cfg toy_env ((demo_share 0 0 ## (7, ''COIN'', 0, [1]) ## sconst (demo_share 1 0)) !! 1)"
    by simp
qed

text \<open>C20: the receive task serves forever. With a sound scheme, if every message of
  the stream is well formed (duplicates, forgeries and shares of any round included),
  the \<^verbatim>\<open>while True\<close> loop never returns: no exception ends it.\<close>

theorem recv_task_forever:
  assumes "config_ok c pk" "tbls_sound pk tsig" "digest_nonempty env" "engine_inv c pk st"
    "\<forall>n. msg_ok c env (ms !! n)"
  shows "recv_task c pk env st ms = None"
proof (cases "recv_task c pk env st ms")
  case (Some y)
  with recv_task_returns_bad [OF assms(1-3) Some] assms(4,5) show ?thesis by blast
qed

theorem recv_task_forever_witness:
  "recv_task demo_cfg demo_pk toy_env init_coin_state
     (cycle [demo_share 0 0, (3, ''COIN'', 0, [99]), demo_share 1 0, demo_share 2 0]) = None"
proof (rule recv_task_forever)
  show "config_ok demo_cfg demo_pk" by (simp add: config_ok_def demo_cfg_def demo_pk_def toy_pk_def)
  show "tbls_sound demo_pk (\<lambda>h. h)" unfolding demo_pk_def by (rule toy_pk_sound) simp
  show "digest_nonempty toy_env" by (rule toy_env_digest)
  show "engine_inv demo_cfg demo_pk init_coin_state" by (rule engine_inv_init)
  have ok: "list_all (msg_ok demo_cfg toy_env) [demo_share 0 0, (3, ''COIN'', 0, [99]), demo_share 1 0, demo_share 2 0]"
    by code_simp
  show "\<forall>n. msg_ok demo_cfg toy_env
      (cycle [demo_share 0 0, (3, ''COIN'', 0, [99]), demo_share 1 0, demo_share 2 0] !! n)"
  proof
    fix n
    let ?xs = "[demo_share 0 0, (3, ''COIN'', 0, [99]), demo_share 1 0, demo_share 2 0]"
    have "cycle ?xs !! n \<in> set ?xs" using snth_sset [of "cycle ?xs" n] by simp
    with ok show "msg_ok demo_cfg toy_env (cycle ?xs !! n)" by (simp only: list_all_iff)
  qed
qed

end
