(* ===== verification/Coin_Bounds.thy ===== *)
theory Coin_Bounds
  imports Coin_Handle
begin

text \<open>
  Bounds and the shape of the data in every reachable state of a coin instance: the
  \<^verbatim>\<open>put_nowait\<close> into a round's \<^verbatim>\<open>asyncio.Queue(1)\<close> never finds it full, a round's
  ledger never more than \<open>n\<close> shares (one per party of \<^verbatim>\<open>range(n)\<close>), the
  values in the queues and handed to callers are bits, and a negative round never gets a
  ledger or a queue entry (the assertion of line 46 fires first). \<open>typed_state\<close>
  collects the last three facts.
\<close>

definition typed_state :: "'sig coin_sys \<Rightarrow> bool" where
  "typed_state s \<longleftrightarrow>
     (\<forall>r. r < 0 \<longrightarrow> received (engine s) r = [] \<and> output_queue (engine s) r = []) \<and>
     (\<forall>r. \<forall>b \<in> set (output_queue (engine s) r). b < 2) \<and>
     (\<forall>(r, b) \<in> set (returned s). 0 \<le> r \<and> b < 2)"

subsection \<open>Lemmas\<close>

text \<open>A schedule for the witnesses: one call, then the shares of all four parties.\<close>

definition demo_degenerate_events :: "coin_event list" where
  "demo_degenerate_events = [Call 0, Deliver (demo_share 0 0), Deliver (demo_share 1 0),
     Deliver (demo_share 2 0), Deliver (demo_share 3 0)]"

lemma coin_bit_lt2: "coin_bit env sig = Some b \<Longrightarrow> b < 2"
  using coin_bit_range by fastforce

lemma typed_state_status [simp]: "typed_state (s\<lparr>recv_status := x\<rparr>) = typed_state s"
  by (simp add: typed_state_def)

lemma typed_state_engine:
  fixes r :: round and st' :: "'sig coin_state" and s :: "'sig coin_sys"
  assumes ty: "typed_state s" and r0: "0 \<le> r"
    and rec: "\<And>r'. r' \<noteq> r \<Longrightarrow> received st' r' = received (engine s) r'"
    and q: "\<And>r'. output_queue st' r' = output_queue (engine s) r' \<or> (r' = r \<and> output_queue st' r' = [b] \<and> b < 2)"
  shows "typed_state (s\<lparr>engine := st'\<rparr>)"
  unfolding typed_state_def
proof (intro conjI allI impI ballI)
  fix r' :: round assume "r' < 0"
  with ty r0 rec [of r'] q [of r'] show "received (engine (s\<lparr>engine := st'\<rparr>)) r' = []"
    "output_queue (engine (s\<lparr>engine := st'\<rparr>)) r' = []"
    by (auto simp: typed_state_def)
next
  fix r' :: round and b' assume "b' \<in> set (output_queue (engine (s\<lparr>engine := st'\<rparr>)) r')"
  with ty q [of r'] show "b' < 2" by (auto simp: typed_state_def)
next
  fix p assume "p \<in> set (returned (s\<lparr>engine := st'\<rparr>))"
  with ty show "case p of (r, b) \<Rightarrow> 0 \<le> r \<and> b < 2" by (auto simp: typed_state_def)
qed

lemma recv_deliver_typed:
  assumes ty: "typed_state s" and d: "recv_deliver c pk env s m = Some s'"
  shows "typed_state s'"
proof -
  obtain i t r bs where m: "m = (i, t, r, bs)" by (cases m rule: prod_cases4)
  show ?thesis
  proof (cases "recv_status s = Running")
    case False
    with d have "s' = s" by (simp add: recv_deliver_def)
    with ty show ?thesis by simp
  next
    case run: True
    show ?thesis
  proof (cases "recv_step c pk env (engine s) (i, t, r, bs)")
    case (Inl a)
    obtain e st' where a: "a = (e, st')" by (cases a)
    with Inl d m run have s': "s' = s\<lparr>engine := st', recv_status := Died e\<rparr>"
      by (simp add: recv_deliver_def)
    from Inl a have step: "recv_step c pk env (engine s) (i, t, r, bs) = Inl (e, st')" by simp
    from step show ?thesis
    proof (cases rule: recv_step_Inl)
      case early
      with ty s' show ?thesis by (simp add: typed_state_def)
    next
      case (fatal sig)
      have "typed_state (s\<lparr>engine := st'\<rparr>)"
        by (rule typed_state_engine [OF ty \<open>0 \<le> r\<close>]) (use fatal in auto)
      then show ?thesis unfolding s' by (metis typed_state_status)
    qed
  next
    case (Inr a)
    obtain st' out where a: "a = (st', out)" by (cases a)
    with Inr d m run have s': "s' = s\<lparr>engine := st'\<rparr>"
      by (simp add: recv_deliver_def)
    from Inr a have step: "recv_step c pk env (engine s) (i, t, r, bs) = Inr (st', out)" by simp
    from step show ?thesis
    proof (cases rule: recv_step_Inr)
      case redundant
      with ty s' run show ?thesis by (simp add: typed_state_def)
    next
      case failed
      with ty s' run show ?thesis by (simp add: typed_state_def)
    next
      case (stored sig)
      show ?thesis unfolding s' by (rule typed_state_engine [OF ty \<open>0 \<le> r\<close>]) (use stored in auto)
    next
      case (put sig b)
      have "b < 2" by (rule coin_bit_lt2 [OF put(9)])
      then show ?thesis unfolding s' by (intro typed_state_engine [OF ty \<open>0 \<le> r\<close>]) (use put in auto)
    qed
  qed
  qed
qed

lemma get_coin_wake_typed:
  assumes ty: "typed_state s" and w: "get_coin_wake s r = Some (s', b)"
  shows "typed_state s'"
proof -
  from w obtain q where q: "output_queue (engine s) r = b # q" and
    s': "s' = s\<lparr>engine := (engine s)\<lparr>output_queue := (output_queue (engine s))(r := q)\<rparr>,
            waiting := remove1 r (waiting s), returned := returned s @ [(r, b)]\<rparr>"
    by (auto simp: get_coin_wake_def queue_get_def split: if_splits list.splits)
  from ty have "r < 0 \<longrightarrow> output_queue (engine s) r = []"
    "\<forall>b \<in> set (output_queue (engine s) r). b < 2" by (simp_all add: typed_state_def)
  with q have "0 \<le> r" "b < 2" "\<forall>b' \<in> set q. b' < 2" by auto
  with ty q s' show ?thesis by (auto simp: typed_state_def)
qed

lemma sys_step_typed:
  assumes ty: "typed_state s" and st: "sys_step c pk sk env s e = Some s'"
  shows "typed_state s'"
proof (cases e)
  case (Call r)
  with st ty show ?thesis by (auto simp: get_coin_call_def typed_state_def)
next
  case (Deliver m)
  with st ty show ?thesis by (auto intro: recv_deliver_typed)
next
  case (Wake r)
  with st ty show ?thesis by (auto intro: get_coin_wake_typed)
next
  case Cancel
  with st ty show ?thesis by (auto simp: recv_cancel_def split: if_splits)
qed

lemma reachable_typed_aux: "reachable c pk sk env s \<Longrightarrow> typed_state s"
proof (induction rule: reachable.induct)
  case (init s)
  then show ?case by (auto simp: shared_coin_def typed_state_def split: if_splits)
next
  case (step s e s')
  from step.IH step.hyps(2) show ?case by (rule sys_step_typed)
qed

lemma ledger_card_bound:
  assumes "distinct (map fst xs)" "\<forall>(i, s) \<in> set xs. py_in_range i n"
  shows "length xs \<le> nat n"
proof -
  have "set (map fst xs) \<subseteq> {0..<n}" using assms(2) by (auto simp: py_in_range_def)
  then have "card (set (map fst xs)) \<le> card {0..<n}" by (intro card_mono) auto
  with distinct_length_card [OF assms(1)] show ?thesis by simp
qed

subsection \<open>Properties\<close>

lemma reachable_ledger_bound:
  assumes "reachable c pk sk env s"
  shows "length (received (engine s) r) \<le> nat (cc_n c)"
proof -
  from reachable_sys_inv_aux [OF assms] have "round_inv c pk (engine s) r"
    by (simp add: sys_inv_def engine_inv_def)
  then show ?thesis by (intro ledger_card_bound) (auto simp: round_inv_def list_all_iff)
qed

lemma recv_step_queue_full:
  assumes step: "recv_step c pk env st (i, t, r, bs) = Inl (OutputQueueFull, st')"
  shows "int (length (received st r)) = cc_f c \<and> output_queue st r \<noteq> []"
  using step
proof (cases rule: recv_step_Inl)
  case early
  then show ?thesis by simp
next
  case (fatal sig)
  let ?st1 = "st\<lparr>received := (received st)(r := received st r @ [(i, sig)])\<rparr>"
  have len1: "int (length (received ?st1 r)) = cc_f c + 1" using fatal by simp
  from step fatal have "resolve_round c pk env ?st1 r (round_digest c pk r) = Inl (OutputQueueFull, st')"
    by (simp add: recv_step_ok_unfold)
  then have "output_queue ?st1 r \<noteq> []"
    by (auto simp: resolve_round_unfold [OF len1] queue_put_nowait_def split: if_splits option.splits)
  with fatal show ?thesis by simp
qed

text \<open>C21: bounds of the two containers. In every reachable state, whatever the threshold
  scheme, an iteration of the receive loop never finds the round's \<^verbatim>\<open>asyncio.Queue(1)\<close>
  full: the \<^verbatim>\<open>put_nowait\<close> of line 80 never raises \<^verbatim>\<open>QueueFull\<close>, because
  the threshold test fires only on the share that brings the ledger from \<open>f\<close> to
  \<open>f + 1\<close> entries, when the round's bit has never been put. And each round's ledger
  holds at most \<open>n\<close> shares, one per party of \<^verbatim>\<open>range(n)\<close>.\<close>

theorem reachable_put_nowait_never_full:
  assumes reach: "reachable c pk sk env s"
  shows "recv_step c pk env (engine s) m \<noteq> Inl (OutputQueueFull, st') \<and>
    length (received (engine s) r) \<le> nat (cc_n c)"
proof
  show "recv_step c pk env (engine s) m \<noteq> Inl (OutputQueueFull, st')"
  proof
    assume step: "recv_step c pk env (engine s) m = Inl (OutputQueueFull, st')"
    obtain i t r' bs where m: "m = (i, t, r', bs)" by (cases m rule: prod_cases4)
    from recv_step_queue_full [OF step [unfolded m]]
    have len: "int (length (received (engine s) r')) = cc_f c" and q: "output_queue (engine s) r' \<noteq> []"
      by simp_all
    from reachable_sys_inv_aux [OF reach] len have "delivered s r' = 0" by (simp add: sys_inv_def)
    with q show False by (simp add: delivered_def)
  qed
  show "length (received (engine s) r) \<le> nat (cc_n c)" by (rule reachable_ledger_bound [OF reach])
qed

theorem reachable_put_nowait_never_full_witness:
  "\<exists>s. sys_run demo_cfg demo_pk (toy_sk 0) toy_env demo_init [Call 0, Deliver (demo_share 0 0)] = Some s \<and>
     recv_step demo_cfg demo_pk toy_env (engine s) (demo_share 1 0) \<noteq> Inl (OutputQueueFull, engine s) \<and>
     length (received (engine s) 0) \<le> nat (cc_n demo_cfg)"
proof -
  have "case sys_run demo_cfg demo_pk (toy_sk 0) toy_env demo_init [Call 0, Deliver (demo_share 0 0)] of
      Some s \<Rightarrow> True | None \<Rightarrow> False"
    by code_simp
  from some_caseE [OF this] obtain s where
    run: "sys_run demo_cfg demo_pk (toy_sk 0) toy_env demo_init [Call 0, Deliver (demo_share 0 0)] = Some s"
    by blast
  from reachable_put_nowait_never_full [OF reachable_run [OF demo_init_reachable run],
      of "demo_share 1 0" "engine s" 0]
  have "recv_step demo_cfg demo_pk toy_env (engine s) (demo_share 1 0) \<noteq> Inl (OutputQueueFull, engine s)"
    and "length (received (engine s) 0) \<le> nat (cc_n demo_cfg)" by simp_all
  with run show ?thesis by (intro exI [where x = s] conjI)
qed

text \<open>C22: the state is well typed as the code means it. In every reachable state no
  negative round has a ledger or a queued bit, every queued value is a bit, and every
  value handed to a caller is a bit of a non-negative round.\<close>

theorem reachable_typed: "reachable c pk sk env s \<Longrightarrow> typed_state s"
  by (rule reachable_typed_aux)

theorem reachable_typed_witness:
  "\<exists>s. sys_run demo_cfg demo_pk (toy_sk 0) toy_env demo_init demo_events = Some s \<and> typed_state s"
proof -
  from demo_run obtain s where run: "sys_run demo_cfg demo_pk (toy_sk 0) toy_env demo_init demo_events = Some s"
    by blast
  from reachable_typed [OF reachable_run [OF demo_init_reachable run]] run show ?thesis by blast
qed

text \<open>C33: boundary of the threshold.  \<^verbatim>\<open>shared_coin\<close> only checks that the key
  matches \<open>f\<close> and \<open>n\<close> (\<open>k = f + 1\<close>, \<open>l = n\<close>), not that \<open>f < n\<close>.  With
  \<open>0 \<le> n \<le> f\<close> a round's ledger, which holds at most one share per party of
  \<^verbatim>\<open>range(n)\<close>, never reaches \<open>f + 1\<close> shares: in every reachable state every
  output queue is empty and no \<^verbatim>\<open>get_coin\<close> call has returned, so every caller
  waits forever.\<close>

theorem degenerate_threshold_never_resolves:
  assumes reach: "reachable c pk sk env s" and n0: "0 \<le> cc_n c" and fn: "cc_n c \<le> cc_f c"
  shows "returned s = [] \<and> (\<forall>r. output_queue (engine s) r = [])"
proof -
  have "delivered s r = 0" for r
  proof -
    from reachable_sys_inv_aux [OF reach] have inv: "sys_inv c pk s" .
    from reachable_ledger_bound [OF reach, of r] have "int (length (received (engine s) r)) \<le> int (nat (cc_n c))"
      by (simp only: of_nat_le_iff)
    with n0 fn have "int (length (received (engine s) r)) \<le> cc_f c" by simp
    with inv show ?thesis by (simp add: sys_inv_def)
  qed
  then have q: "output_queue (engine s) r = []" and f: "\<forall>p \<in> set (returned s). fst p \<noteq> r" for r
    by (simp_all add: delivered_def filter_empty_conv)
  have "returned s = []"
  proof (rule ccontr)
    assume "returned s \<noteq> []"
    then obtain p where "p \<in> set (returned s)" by (cases "returned s") auto
    with f [of "fst p"] show False by blast
  qed
  with q show ?thesis by blast
qed

theorem degenerate_threshold_never_resolves_witness:
  "\<exists>s. sys_run (demo_cfg\<lparr>cc_f := 4\<rparr>) (toy_pk 5 4) (toy_sk 0) toy_env demo_init demo_degenerate_events = Some s \<and>
     length (received (engine s) 0) = 4 \<and> returned s = [] \<and> (\<forall>r. output_queue (engine s) r = [])"
proof -
  have "case sys_run (demo_cfg\<lparr>cc_f := 4\<rparr>) (toy_pk 5 4) (toy_sk 0) toy_env demo_init demo_degenerate_events of Some s \<Rightarrow> length (received (engine s) 0) = 4 | None \<Rightarrow> False"
    by code_simp
  from some_caseE [OF this] obtain s where run: "sys_run (demo_cfg\<lparr>cc_f := 4\<rparr>) (toy_pk 5 4) (toy_sk 0)
      toy_env demo_init demo_degenerate_events = Some s" and len: "length (received (engine s) 0) = 4" by blast
  have init: "reachable (demo_cfg\<lparr>cc_f := 4\<rparr>) (toy_pk 5 4) (toy_sk 0) toy_env demo_init"
    by (rule reachable.init) (simp add: shared_coin_def demo_init_def demo_cfg_def toy_pk_def)
  have "0 \<le> cc_n (demo_cfg\<lparr>cc_f := 4\<rparr>)" "cc_n (demo_cfg\<lparr>cc_f := 4\<rparr>) \<le> cc_f (demo_cfg\<lparr>cc_f := 4\<rparr>)"
    by (simp_all add: demo_cfg_def)
  from degenerate_threshold_never_resolves [OF reachable_run [OF init run] this]
  have ret: "returned s = []" and q: "\<forall>r. output_queue (engine s) r = []" by (rule conjunct1, rule conjunct2)
  from run len ret q show ?thesis by (intro exI [where x = s] conjI)
qed

end
