(* ===== verification/Coin_Order.thy ===== *)
theory Coin_Order
  imports Coin_Engine
begin

text \<open>
  Order independence of the receive loop (the spec, section 5: "the resolution algorithm
  is order-independent in outcome"). From the initial state, with a sound scheme and
  well-formed messages, the loop puts round \<open>r\<close>'s coin exactly when \<open>f + 1\<close>
  distinct parties have sent a valid share of \<open>r\<close>, and the coin is the ideal one; this
  is the abstract specification \<open>coin_spec_resolves\<close>, which depends only on the set
  of messages, not on their order or repetitions.
\<close>

definition coin_spec_resolves ::
  "coin_config \<Rightarrow> ('sig, 'h) tbls_pk \<Rightarrow> 'sig tbls_env \<Rightarrow> ('h \<Rightarrow> 'sig) \<Rightarrow> coin_msg list
   \<Rightarrow> round \<Rightarrow> nat \<Rightarrow> bool" where
  "coin_spec_resolves c pk env tsig ms r b \<longleftrightarrow>
     cc_f c + 1 \<le> int (card (set (share_senders c pk env r ms))) \<and>
     ideal_coin env pk tsig (cc_sid c) r = Some b"

subsection \<open>Lemmas\<close>

lemma first_shares_keys:
  "set (map fst (first_shares acc xs)) = set (map fst acc) \<union> set (map fst xs)"
  by (induction acc xs rule: first_shares.induct) auto

lemma first_shares_distinct:
  "distinct (map fst acc) \<Longrightarrow> distinct (map fst (first_shares acc xs))"
  by (induction acc xs rule: first_shares.induct) auto

lemma map_fst_valid_shares: "map fst (valid_shares c pk env r ms) = share_senders c pk env r ms"
proof (induction ms)
  case Nil
  then show ?case by (simp add: valid_shares_def share_senders_def)
next
  case (Cons m ms)
  obtain i t r0 bs where "m = (i, t, r0, bs)" by (cases m rule: prod_cases4)
  with Cons show ?case by (auto simp: valid_shares_Cons share_senders_Cons split: option.splits)
qed

lemma share_senders_set:
  "set ms = set ms' \<Longrightarrow> set (share_senders c pk env r ms) = set (share_senders c pk env r ms')"
  by (simp add: share_senders_def)

lemma ledger_length_init:
  assumes "recv_loop c pk env init_coin_state ms = (st', outs, None)"
  shows "length (received st' r) = card (set (share_senders c pk env r ms))"
proof -
  have l: "received st' r = first_shares [] (valid_shares c pk env r ms)"
    using recv_loop_ledger [OF assms] by simp
  have "distinct (map fst (received st' r))" unfolding l by (rule first_shares_distinct) simp
  then have "length (received st' r) = card (set (map fst (received st' r)))" by (rule distinct_length_card)
  also have "\<dots> = card (set (share_senders c pk env r ms))"
    unfolding l first_shares_keys by (simp add: map_fst_valid_shares)
  finally show ?thesis .
qed

lemma coin_put_iff_init:
  assumes f0: "0 \<le> cc_f c" and cfg: "config_ok c pk" and snd: "tbls_sound pk tsig"
    and dg: "digest_nonempty env" and ok: "list_all (msg_ok c env) ms"
    and loop: "recv_loop c pk env init_coin_state ms = (st', outs, None)"
  shows "CoinPut r b \<in> set outs \<longleftrightarrow>
    cc_f c + 1 \<le> int (card (set (share_senders c pk env r ms))) \<and> ideal_coin env pk tsig (cc_sid c) r = Some b"
proof
  assume put: "CoinPut r b \<in> set outs"
  from recv_loop_put_selection [OF loop put] have "cc_f c + 1 \<le> int (length (received st' r))" by auto
  with ledger_length_init [OF loop] have "cc_f c + 1 \<le> int (card (set (share_senders c pk env r ms)))" by simp
  with recv_loop_put_ideal [OF engine_inv_init cfg snd loop put] show
    "cc_f c + 1 \<le> int (card (set (share_senders c pk env r ms))) \<and> ideal_coin env pk tsig (cc_sid c) r = Some b"
    by simp
next
  assume h: "cc_f c + 1 \<le> int (card (set (share_senders c pk env r ms))) \<and> ideal_coin env pk tsig (cc_sid c) r = Some b"
  have "int (length (received init_coin_state r)) \<le> cc_f c" using f0 by simp
  from recv_loop_resolves [OF engine_inv_init cfg snd dg ok this] h loop
  show "CoinPut r b \<in> set outs" by auto
qed

subsection \<open>Properties\<close>

text \<open>C28: order independence. Two message sequences with the same messages, in any order
  and with any repetitions, resolve the same coins: both runs of the receive loop from the
  initial state raise nothing and put the same bits for the same rounds.\<close>

theorem recv_loop_order_independent:
  assumes f0: "0 \<le> cc_f c" and cfg: "config_ok c pk" and snd: "tbls_sound pk tsig"
    and dg: "digest_nonempty env" and ok: "list_all (msg_ok c env) ms" and same: "set ms' = set ms"
  shows "\<exists>st1 outs1 st2 outs2. recv_loop c pk env init_coin_state ms = (st1, outs1, None) \<and>
    recv_loop c pk env init_coin_state ms' = (st2, outs2, None) \<and>
    (\<forall>r b. CoinPut r b \<in> set outs1 \<longleftrightarrow> CoinPut r b \<in> set outs2)"
proof -
  have ok': "list_all (msg_ok c env) ms'" using ok same by (simp add: list_all_iff)
  from recv_loop_total [OF engine_inv_init cfg snd dg ok] obtain st1 outs1 where
    l1: "recv_loop c pk env init_coin_state ms = (st1, outs1, None)" by blast
  from recv_loop_total [OF engine_inv_init cfg snd dg ok'] obtain st2 outs2 where
    l2: "recv_loop c pk env init_coin_state ms' = (st2, outs2, None)" by blast
  have "CoinPut r b \<in> set outs1 \<longleftrightarrow> CoinPut r b \<in> set outs2" for r b
    unfolding coin_put_iff_init [OF f0 cfg snd dg ok l1] coin_put_iff_init [OF f0 cfg snd dg ok' l2]
    using share_senders_set [OF same, of c pk env r] by simp
  with l1 l2 show ?thesis by blast
qed

theorem recv_loop_order_independent_witness:
  "\<exists>st1 outs1 st2 outs2.
     recv_loop demo_cfg demo_pk toy_env init_coin_state [demo_share 0 0, demo_share 1 0, demo_share 2 5] = (st1, outs1, None) \<and>
     recv_loop demo_cfg demo_pk toy_env init_coin_state
       [demo_share 2 5, demo_share 1 0, demo_share 1 0, demo_share 0 0] = (st2, outs2, None) \<and>
     (\<forall>r b. CoinPut r b \<in> set outs1 \<longleftrightarrow> CoinPut r b \<in> set outs2)"
proof (rule recv_loop_order_independent)
  show "0 \<le> cc_f demo_cfg" by (simp add: demo_cfg_def)
  show "config_ok demo_cfg demo_pk" by (simp add: config_ok_def demo_cfg_def demo_pk_def toy_pk_def)
  show "tbls_sound demo_pk (\<lambda>h. h)" unfolding demo_pk_def by (rule toy_pk_sound) simp
  show "digest_nonempty toy_env" by (rule toy_env_digest)
  show "list_all (msg_ok demo_cfg toy_env) [demo_share 0 0, demo_share 1 0, demo_share 2 5]" by code_simp
  show "set [demo_share 2 5, demo_share 1 0, demo_share 1 0, demo_share 0 0] =
    set [demo_share 0 0, demo_share 1 0, demo_share 2 5]" by auto
qed

text \<open>C29: the receive loop refines the abstract coin. From the initial state, with a
  sound scheme and well-formed messages, the loop raises nothing, and it puts coin
  \<open>b\<close> for round \<open>r\<close> exactly when \<open>coin_spec_resolves\<close> holds: \<open>f + 1\<close>
  distinct valid senders of round \<open>r\<close>, and \<open>b\<close> the round's ideal coin.\<close>

theorem recv_loop_refines_spec:
  assumes f0: "0 \<le> cc_f c" and cfg: "config_ok c pk" and snd: "tbls_sound pk tsig"
    and dg: "digest_nonempty env" and ok: "list_all (msg_ok c env) ms"
  shows "\<exists>st' outs. recv_loop c pk env init_coin_state ms = (st', outs, None) \<and>
    (\<forall>r b. CoinPut r b \<in> set outs \<longleftrightarrow> coin_spec_resolves c pk env tsig ms r b)"
proof -
  from recv_loop_total [OF engine_inv_init cfg snd dg ok] obtain st' outs where
    l: "recv_loop c pk env init_coin_state ms = (st', outs, None)" by blast
  with coin_put_iff_init [OF f0 cfg snd dg ok l] show ?thesis
    by (auto simp: coin_spec_resolves_def)
qed

theorem recv_loop_refines_spec_witness:
  "\<exists>st' outs. recv_loop demo_cfg demo_pk toy_env init_coin_state
       [demo_share 0 0, (3, ''COIN'', 0, [99]), demo_share 2 5, demo_share 1 0] = (st', outs, None) \<and>
     (\<forall>r b. CoinPut r b \<in> set outs \<longleftrightarrow> coin_spec_resolves demo_cfg demo_pk toy_env (\<lambda>h. h)
        [demo_share 0 0, (3, ''COIN'', 0, [99]), demo_share 2 5, demo_share 1 0] r b)"
proof (rule recv_loop_refines_spec)
  show "0 \<le> cc_f demo_cfg" by (simp add: demo_cfg_def)
  show "config_ok demo_cfg demo_pk" by (simp add: config_ok_def demo_cfg_def demo_pk_def toy_pk_def)
  show "tbls_sound demo_pk (\<lambda>h. h)" unfolding demo_pk_def by (rule toy_pk_sound) simp
  show "digest_nonempty toy_env" by (rule toy_env_digest)
  show "list_all (msg_ok demo_cfg toy_env) [demo_share 0 0, (3, ''COIN'', 0, [99]), demo_share 2 5, demo_share 1 0]"
    by code_simp
qed

end
