(* ===== verification/Coin_Main.thy ===== *)
theory Coin_Main
  imports Coin_Engine
begin

text \<open>
  The command-line entry point (the \<^verbatim>\<open>__main__\<close> block of commoncoin.py, lines 123
  to 181) up to the call of \<^verbatim>\<open>run_common_coin\<close>: the node id, config file and key
  strings from the environment or \<^verbatim>\<open>sys.argv\<close>, the \<^verbatim>\<open>ConfigurationError\<close>
  checks, the config lookups, \<^verbatim>\<open>int\<close> of the node id and the peer table parsed from
  \<open>host:port\<close> strings. Every exception is an \<open>Inl\<close> of \<open>main_error\<close>. File
  reading, unpickling and the asyncio event loop are parameters or left out.
\<close>

datatype main_error =
    ConfigurationError string
  | KeyError string
  | ValueError
  | IndexError
  | KeyDecodeError

record main_config =
  cfg_N :: "int option"
  cfg_t :: "int option"
  cfg_k :: "int option"
  cfg_peers :: "(string \<times> string) list option"

record node_details =
  nd_host :: string
  nd_port :: int

record ('pk, 'sk) main_run =
  mr_network :: "(int \<times> node_details) list"
  mr_pbk :: 'pk
  mr_pvk :: 'sk
  mr_n :: int
  mr_t :: int
  mr_nodeid :: int

subsection \<open>Arguments\<close>

text \<open>\<^verbatim>\<open>os.environ.get(k)\<close> (lines 133 to 136), then the \<^verbatim>\<open>try\<close> block of
  lines 139 to 145: \<^verbatim>\<open>sys.argv[1]\<close> to \<^verbatim>\<open>sys.argv[4]\<close> are assigned in turn to the node
  id, the config file, the public and the private key strings, and the first
  \<^verbatim>\<open>IndexError\<close> ends the assignments, leaving the rest as they were.\<close>

definition env_get :: "(string \<times> string) list \<Rightarrow> string \<Rightarrow> string option" where
  "env_get environ k = map_of environ k"

fun argv_assign :: "string list \<Rightarrow> nat \<Rightarrow> string option list \<Rightarrow> string option list" where
  "argv_assign argv i [] = []"
| "argv_assign argv i (v # vs) =
     (if i < length argv then Some (argv ! i) # argv_assign argv (Suc i) vs else v # vs)"

definition main_args :: "(string \<times> string) list \<Rightarrow> string list \<Rightarrow> string option list" where
  "main_args environ argv =
     argv_assign argv 1
       [env_get environ ''HBMPC_NODE_ID'', env_get environ ''HBMPC_CONFIG'',
        env_get environ ''HBMPC_PB_KEY'', env_get environ ''HBMPC_PV_KEY'']"

text \<open>The four checks of lines 147 to 161, in the code's order (the private key string
  before the public one) and with its messages (adjacent literals concatenated).\<close>

definition py_truthy :: "string option \<Rightarrow> bool" where
  "py_truthy v = (case v of None \<Rightarrow> False | Some s \<Rightarrow> s \<noteq> [])"

definition main_check ::
  "string option \<Rightarrow> string option \<Rightarrow> string option \<Rightarrow> string option
   \<Rightarrow> main_error + string \<times> string \<times> string \<times> string" where
  "main_check nodeid configfile pbk_string pvk_string =
     (if \<not> py_truthy nodeid then Inl (ConfigurationError
        (''Environment variable `HBMPC_NODE_ID` must be set'' @ '' or a node id must be given as first argument.''))
      else if \<not> py_truthy configfile then Inl (ConfigurationError
        (''Environment variable `HBMPC_CONFIG` must be set'' @ '' or a config file must be given as first argument.''))
      else if \<not> py_truthy pvk_string then Inl (ConfigurationError
        (''Environment variable `HBMPC_PV_KEY` must be set'' @ '' or a config file must be given as first argument.''))
      else if \<not> py_truthy pbk_string then Inl (ConfigurationError
        (''Environment variable `HBMPC_PB_KEY` must be set'' @ '' or a config file must be given as first argument.''))
      else Inr (the nodeid, the configfile, the pbk_string, the pvk_string))"

subsection \<open>\<^verbatim>\<open>int\<close> and \<^verbatim>\<open>str.split\<close>\<close>

text \<open>\<^verbatim>\<open>int(s)\<close> of a string: surrounding whitespace stripped, an optional sign,
  decimal digits with single underscores between them.\<close>

definition py_space :: "char \<Rightarrow> bool" where
  "py_space c \<longleftrightarrow>
     (let v = (of_char c :: nat) in (9 \<le> v \<and> v \<le> 13) \<or> (28 \<le> v \<and> v \<le> 32) \<or> v = 133 \<or> v = 160)"

definition py_strip :: "string \<Rightarrow> string" where
  "py_strip s = rev (dropWhile py_space (rev (dropWhile py_space s)))"

fun py_digit_groups :: "string \<Rightarrow> bool" where
  "py_digit_groups [] = False"
| "py_digit_groups [c] = is_digit c"
| "py_digit_groups (c # d # cs) =
     (is_digit c \<and> (if d = CHR ''_'' then cs \<noteq> [] \<and> is_digit (hd cs) \<and> py_digit_groups cs
                    else py_digit_groups (d # cs)))"

definition py_int_str :: "string \<Rightarrow> int option" where
  "py_int_str s =
     (let t = py_strip s;
          (neg, ds) = (case t of c # cs \<Rightarrow> if c = CHR ''-'' then (True, cs)
                                          else if c = CHR ''+'' then (False, cs) else (False, t)
                             | [] \<Rightarrow> (False, []))
      in if py_digit_groups ds
         then Some ((if neg then - 1 else 1) * int (digits_val (filter (\<lambda>c. c \<noteq> CHR ''_'') ds)))
         else None)"

text \<open>\<^verbatim>\<open>s.split(sep)\<close> with a one-character separator: the pieces between
  separators, empty ones included.\<close>

fun py_split :: "char \<Rightarrow> string \<Rightarrow> string list" where
  "py_split sep [] = [[]]"
| "py_split sep (c # cs) =
     (if c = sep then [] # py_split sep cs
      else (case py_split sep cs of w # ws \<Rightarrow> (c # w) # ws | [] \<Rightarrow> [[c]]))"

subsection \<open>The peer table and the whole set-up\<close>

text \<open>One item of the comprehension of lines 169 to 172, key first (Python 3.8 and
  later): \<^verbatim>\<open>int(peerid)\<close>, then \<^verbatim>\<open>addrinfo.split(':')[0]\<close> as host and
  \<^verbatim>\<open>int(addrinfo.split(':')[1])\<close> as port. The comprehension builds a dict: a later
  item with the same integer id overwrites the earlier one in place.\<close>

definition peer_entry :: "string \<times> string \<Rightarrow> main_error + int \<times> node_details" where
  "peer_entry p =
     (case p of (peerid, addrinfo) \<Rightarrow>
       (case py_int_str peerid of
          None \<Rightarrow> Inl ValueError
        | Some pid \<Rightarrow>
            (let parts = py_split CHR '':'' addrinfo in
             if length parts < 2 then Inl IndexError
             else case py_int_str (parts ! 1) of
                    None \<Rightarrow> Inl ValueError
                  | Some port \<Rightarrow> Inr (pid, \<lparr>nd_host = parts ! 0, nd_port = port\<rparr>))))"

fun network_info :: "(int \<times> node_details) list \<Rightarrow> (string \<times> string) list
   \<Rightarrow> main_error + (int \<times> node_details) list" where
  "network_info acc [] = Inr acc"
| "network_info acc (p # ps) =
     (case peer_entry p of Inl e \<Rightarrow> Inl e | Inr (k, v) \<Rightarrow> network_info (dict_set acc k v) ps)"

definition cfg_get :: "'a option \<Rightarrow> string \<Rightarrow> main_error + 'a" where
  "cfg_get v key = (case v of None \<Rightarrow> Inl (KeyError key) | Some x \<Rightarrow> Inr x)"

text \<open>Lines 133 to 172: arguments, checks, \<^verbatim>\<open>load_config\<close> (a parameter: file
  reading is not modelled), the lookups of \<^verbatim>\<open>N\<close>, \<^verbatim>\<open>t\<close> and \<^verbatim>\<open>k\<close>, the two key
  decodings \<^verbatim>\<open>pickle.loads(base64.b64decode(..))\<close> (parameters, \<open>None\<close> when they
  raise), \<^verbatim>\<open>int(nodeid)\<close> and the peer table. The result holds the arguments of
  \<^verbatim>\<open>run_common_coin(network_info, pbk, pvk, n, t, nodeid)\<close> on line 179.\<close>

definition main_setup ::
  "(string \<times> string) list \<Rightarrow> string list \<Rightarrow> (string \<Rightarrow> main_config) \<Rightarrow> (string \<Rightarrow> 'pk option)
   \<Rightarrow> (string \<Rightarrow> 'sk option) \<Rightarrow> main_error + ('pk, 'sk) main_run" where
  "main_setup environ argv load_config load_pk load_sk =
     (let args = main_args environ argv in
          (case main_check (args ! 0) (args ! 1) (args ! 2) (args ! 3) of
             Inl e \<Rightarrow> Inl e
           | Inr (nid, cf, pbs, pvs) \<Rightarrow>
               (let cfg = load_config cf in
                case cfg_get (cfg_N cfg) ''N'' of Inl e \<Rightarrow> Inl e | Inr n \<Rightarrow>
                case cfg_get (cfg_t cfg) ''t'' of Inl e \<Rightarrow> Inl e | Inr t \<Rightarrow>
                case cfg_get (cfg_k cfg) ''k'' of Inl e \<Rightarrow> Inl e | Inr k \<Rightarrow>
                case load_pk pbs of None \<Rightarrow> Inl KeyDecodeError | Some pbk \<Rightarrow>
                case load_sk pvs of None \<Rightarrow> Inl KeyDecodeError | Some pvk \<Rightarrow>
                case py_int_str nid of None \<Rightarrow> Inl ValueError | Some node \<Rightarrow>
                case cfg_get (cfg_peers cfg) ''peers'' of Inl e \<Rightarrow> Inl e | Inr peers \<Rightarrow>
                case network_info [] peers of Inl e \<Rightarrow> Inl e | Inr net \<Rightarrow>
                Inr \<lparr>mr_network = net, mr_pbk = pbk, mr_pvk = pvk, mr_n = n, mr_t = t,
                     mr_nodeid = node\<rparr>)))"

text \<open>The coin instance \<^verbatim>\<open>run_common_coin\<close> creates on line 114:
  \<^verbatim>\<open>shared_coin('sidA', nodeid, n, f, ...)\<close>, where \<open>f\<close> is the \<open>t\<close> of the
  config.\<close>

definition main_coin_config :: "('pk, 'sk) main_run \<Rightarrow> coin_config" where
  "main_coin_config R = \<lparr>cc_sid = ''sidA'', cc_pid = mr_nodeid R, cc_n = mr_n R, cc_f = mr_t R\<rparr>"

subsection \<open>An instance, for the witnesses\<close>


definition demo_load_config :: "string \<Rightarrow> main_config" where
  "demo_load_config f = \<lparr>cfg_N = Some 4, cfg_t = Some 1, cfg_k = Some 2,
     cfg_peers = Some [(''0'', ''127.0.0.1:7000''), (''1'', ''127.0.0.1:7001''), (''2'', ''127.0.0.1:7002''),
       (''3'', ''127.0.0.1:7003''), (''01'', ''10.0.0.9:9000'')]\<rparr>"

subsection \<open>Lemmas\<close>

lemma argv_assign_nth:
  "i < length vs \<Longrightarrow>
     argv_assign argv k vs ! i = (if k + i < length argv then Some (argv ! (k + i)) else vs ! i)"
proof (induction argv k vs arbitrary: i rule: argv_assign.induct)
  case (2 argv k v vs)
  show ?case
  proof (cases i)
    case 0
    then show ?thesis by simp
  next
    case (Suc j)
    with "2.prems" "2.IH" [of j] show ?thesis by auto
  qed
qed simp

lemma length_argv_assign [simp]: "length (argv_assign argv k vs) = length vs"
  by (induction argv k vs rule: argv_assign.induct) auto

lemma digit_not_space: "is_digit c \<Longrightarrow> \<not> py_space c"
  by (auto simp: is_digit_def py_space_def Let_def)

lemma py_strip_no_space: "\<forall>c \<in> set s. \<not> py_space c \<Longrightarrow> py_strip s = s"
proof -
  assume ns: "\<forall>c \<in> set s. \<not> py_space c"
  then have "dropWhile py_space s = s" by (cases s) auto
  moreover from ns have "dropWhile py_space (rev s) = rev s" by (cases "rev s") auto
  ultimately show ?thesis by (simp add: py_strip_def)
qed

lemma py_digit_groups_digits: "list_all is_digit ds \<Longrightarrow> ds \<noteq> [] \<Longrightarrow> py_digit_groups ds"
proof (induction ds rule: py_digit_groups.induct)
  case (3 c d cs)
  moreover have "d \<noteq> CHR ''_''" using 3 by (auto simp: is_digit_def)
  ultimately show ?case by simp
qed simp_all

lemma filter_digits_id: "list_all is_digit ds \<Longrightarrow> filter (\<lambda>c. c \<noteq> CHR ''_'') ds = ds"
  by (induction ds) (auto simp: is_digit_def)

lemma py_str_int_no_space: "\<forall>c \<in> set (py_str_int i). \<not> py_space c"
  using py_digits_all_digits digit_not_space
  by (auto simp: py_str_int_def py_space_def list_all_iff)

lemma py_int_str_roundtrip: "py_int_str (py_str_int i) = Some i"
proof -
  have strip: "py_strip (py_str_int i) = py_str_int i" by (rule py_strip_no_space [OF py_str_int_no_space])
  show ?thesis
  proof (cases "i < 0")
    case True
    then show ?thesis
      using py_digits_all_digits [of "nat (- i)"] py_digits_ne [of "nat (- i)"]
      by (simp add: py_int_str_def strip [unfolded py_str_int_neg [OF True]] py_str_int_neg
          py_digit_groups_digits filter_digits_id digits_val_py_digits Let_def)
  next
    case False
    obtain c ds where cs: "py_digits (nat i) = c # ds"
      using py_digits_ne by (cases "py_digits (nat i)") auto
    have dig: "list_all is_digit (c # ds)" using py_digits_all_digits [of "nat i"] cs by simp
    then have "c \<noteq> CHR ''-''" "c \<noteq> CHR ''+''" "c \<noteq> CHR ''_''" by (auto simp: is_digit_def)
    moreover have "py_strip (c # ds) = c # ds" using strip False cs by (simp add: py_str_int_def)
    ultimately show ?thesis using False cs dig digits_val_py_digits [of "nat i"] py_digit_groups_digits [OF dig]
      by (simp add: py_int_str_def py_str_int_def filter_digits_id Let_def)
  qed
qed

lemma py_split_no_sep: "sep \<notin> set w \<Longrightarrow> py_split sep w = [w]"
  by (induction w) auto

lemma py_split_append: "sep \<notin> set w \<Longrightarrow> py_split sep (w @ sep # rest) = w # py_split sep rest"
  by (induction w) auto

lemma py_split_ne [simp]: "py_split sep s \<noteq> []"
  by (induction s) (auto split: list.splits)

lemma py_split_hd: "hd (py_split sep s) = takeWhile (\<lambda>x. x \<noteq> sep) s"
  by (induction s) (auto simp: hd_def split: list.splits)

lemma py_str_int_no_colon: "CHR '':'' \<notin> set (py_str_int i)"
proof -
  have "\<not> is_digit CHR '':''" by (simp add: is_digit_def)
  then have "CHR '':'' \<notin> set (py_digits m)" for m
    using py_digits_all_digits [of m] by (auto simp: list_all_iff)
  then show ?thesis by (simp add: py_str_int_def)
qed


subsection \<open>Properties of the entry point\<close>

text \<open>C23: the command line overrides the environment position by position. The node id,
  config file, public and private key strings are \<^verbatim>\<open>sys.argv[1]\<close> to
  \<^verbatim>\<open>sys.argv[4]\<close> where present and the environment variables otherwise: the
  sequential assignments cut short by \<^verbatim>\<open>IndexError\<close> amount to this closed form.\<close>

theorem main_args_override:
  "main_args environ argv =
     [if 1 < length argv then Some (argv ! 1) else env_get environ ''HBMPC_NODE_ID'',
      if 2 < length argv then Some (argv ! 2) else env_get environ ''HBMPC_CONFIG'',
      if 3 < length argv then Some (argv ! 3) else env_get environ ''HBMPC_PB_KEY'',
      if 4 < length argv then Some (argv ! 4) else env_get environ ''HBMPC_PV_KEY'']"
  by (rule nth_equalityI) (auto simp: main_args_def argv_assign_nth less_Suc_eq numeral_eq_Suc)

text \<open>C24: the error for a missing private key. When a node id and a config file are
  given but no private key string, the entry point stops with the
  \<^verbatim>\<open>ConfigurationError\<close> about \<^verbatim>\<open>HBMPC_PV_KEY\<close>, whatever the public key string,
  and its message asks for a config file as first argument, although the key is the
  fourth.\<close>

theorem main_setup_pv_key_message:
  assumes "py_truthy (main_args environ argv ! 0)" "py_truthy (main_args environ argv ! 1)"
    "\<not> py_truthy (main_args environ argv ! 3)"
  shows "main_setup environ argv load_config load_pk load_sk =
    Inl (ConfigurationError
      ''Environment variable `HBMPC_PV_KEY` must be set or a config file must be given as first argument.'')"
  using assms by (simp add: main_setup_def main_check_def Let_def)

theorem main_setup_pv_key_message_witness:
  "main_setup [(''HBMPC_NODE_ID'', ''1''), (''HBMPC_PB_KEY'', ''pk'')] [''commoncoin.py'', ''1'', ''hbmpc.json'']
     demo_load_config (\<lambda>s. Some s) (\<lambda>s. Some s) =
   Inl (ConfigurationError
      ''Environment variable `HBMPC_PV_KEY` must be set or a config file must be given as first argument.'')"
  by (rule main_setup_pv_key_message) (simp_all add: main_args_def env_get_def py_truthy_def)

text \<open>C25: peer addresses round-trip. An entry written as \<^verbatim>\<open>str(id)\<close> and
  \<open>host:str(port)\<close>, with a host free of colons, is read back as that id, host and
  port (\<^verbatim>\<open>int(str(i)) == i\<close> included).\<close>

theorem peer_entry_roundtrip:
  assumes "CHR '':'' \<notin> set host"
  shows "peer_entry (py_str_int pid, host @ '':'' @ py_str_int port) =
    Inr (pid, \<lparr>nd_host = host, nd_port = port\<rparr>)"
  using assms py_str_int_no_colon [of port]
  by (simp add: peer_entry_def py_int_str_roundtrip py_split_append py_split_no_sep)

theorem peer_entry_roundtrip_witness:
  "peer_entry (py_str_int 3, ''10.0.0.7'' @ '':'' @ py_str_int 7003) =
     Inr (3, \<lparr>nd_host = ''10.0.0.7'', nd_port = 7003\<rparr>)"
  by (rule peer_entry_roundtrip) simp

text \<open>C26: a host containing a colon, such as an IPv6 literal, is never read back: the
  host taken is the text before the first colon.\<close>

theorem peer_entry_colon_host:
  assumes "CHR '':'' \<in> set host"
  shows "peer_entry (peerid, host @ '':'' @ p) \<noteq> Inr (k, \<lparr>nd_host = host, nd_port = q\<rparr>)"
proof
  assume eq: "peer_entry (peerid, host @ '':'' @ p) = Inr (k, \<lparr>nd_host = host, nd_port = q\<rparr>)"
  let ?parts = "py_split CHR '':'' (host @ '':'' @ p)"
  from eq have "?parts ! 0 = host"
    by (auto simp: peer_entry_def Let_def split: option.splits if_splits)
  then have "takeWhile (\<lambda>x. x \<noteq> CHR '':'') (host @ '':'' @ p) = host"
    using py_split_hd [of "CHR '':''" "host @ '':'' @ p"] py_split_ne [of "CHR '':''"]
    by (cases ?parts) auto
  moreover have "takeWhile (\<lambda>x. x \<noteq> CHR '':'') (host @ '':'' @ p) = takeWhile (\<lambda>x. x \<noteq> CHR '':'') host"
    using assms by (intro takeWhile_append1) auto
  moreover have "takeWhile (\<lambda>x. x \<noteq> CHR '':'') host \<noteq> host"
    using assms by (simp add: takeWhile_eq_all_conv)
  ultimately show False by simp
qed

theorem peer_entry_colon_host_witness:
  "peer_entry (''0'', ''::1'' @ '':'' @ ''7000'') \<noteq> Inr (0, \<lparr>nd_host = ''::1'', nd_port = 7000\<rparr>)"
  by (rule peer_entry_colon_host) simp




end
