(* ===== verification/Coin_Log.thy ===== *)
theory Coin_Log
  imports Coin_Main Coin_Handle
begin

text \<open>The receive loop's diagnostic output (commoncoin.py lines 47--59).  A redundant share
  and a share that fails verification each make \<open>_recv\<close> \<open>print\<close> a fixed text followed by
  the tuple \<open>(sid, pid, i, r)\<close>: \<open>diag_line\<close> renders that line as Python's \<open>print\<close>
  does (the \<open>repr\<close> of the tuple after one space), \<open>recv_print\<close> is the output of one
  iteration and \<open>recv_stdout\<close> the standard output of a whole loop, aligned with the
  outcomes \<open>recv_loop\<close> returns.  \<open>diag_parse\<close> is a reader for these lines: the
  lemmas show that the log determines exactly which diagnostic events happened (kind, sender,
  round), and that an honest party is never named in a ``Signature share failed!'' line.\<close>


datatype diag_kind = RedundantSig | ShareFailedSig

definition diag_text :: "diag_kind \<Rightarrow> string" where
  "diag_text k = (case k of RedundantSig \<Rightarrow> ''redundant coin sig received'' | ShareFailedSig \<Rightarrow> ''Signature share failed!'')"

definition diag_line :: "diag_kind \<Rightarrow> string \<Rightarrow> party \<Rightarrow> party \<Rightarrow> round \<Rightarrow> string" where
  "diag_line k sid pid i r =
     diag_text k @ '' '' @
     ''('' @ py_repr_str sid @ '', '' @ py_str_int pid @ '', '' @ py_str_int i @ '', '' @ py_str_int r @ '')''"

definition recv_print :: "coin_config \<Rightarrow> coin_msg \<Rightarrow> recv_outcome \<Rightarrow> string list" where
  "recv_print c m out =
     (case m of (i, _, r, _) \<Rightarrow>
       (case out of
          Redundant \<Rightarrow> [diag_line RedundantSig (cc_sid c) (cc_pid c) i r]
        | ShareFailed \<Rightarrow> [diag_line ShareFailedSig (cc_sid c) (cc_pid c) i r]
        | _ \<Rightarrow> []))"

definition recv_stdout :: "coin_config \<Rightarrow> coin_msg list \<Rightarrow> recv_outcome list \<Rightarrow> string list" where
  "recv_stdout c ms outs = concat (map2 (recv_print c) ms outs)"

definition diag_event :: "coin_msg \<Rightarrow> recv_outcome \<Rightarrow> (diag_kind \<times> party \<times> round) list" where
  "diag_event m out =
     (case out of
        Redundant \<Rightarrow> [(RedundantSig, fst m, msg_round m)]
      | ShareFailed \<Rightarrow> [(ShareFailedSig, fst m, msg_round m)]
      | _ \<Rightarrow> [])"

definition diag_body :: "string \<Rightarrow> (string \<times> party \<times> party \<times> round) option" where
  "diag_body s =
     (case s of
        c # cs \<Rightarrow>
          if c \<noteq> CHR ''('' then None
          else (case py_unrepr cs of
                  None \<Rightarrow> None
                | Some (sid, rest) \<Rightarrow>
                    if take 2 rest = '', '' \<and> 2 < length rest \<and> last rest = CHR '')''
                    then (case map py_int_str (py_split CHR '','' (butlast (drop 2 rest))) of
                            [Some pid, Some i, Some r] \<Rightarrow> Some (sid, pid, i, r)
                          | _ \<Rightarrow> None)
                    else None)
      | [] \<Rightarrow> None)"

definition diag_parse :: "string \<Rightarrow> (diag_kind \<times> string \<times> party \<times> party \<times> round) option" where
  "diag_parse s =
     (let p1 = diag_text RedundantSig @ '' ''; p2 = diag_text ShareFailedSig @ '' '' in
      if take (length p1) s = p1 then map_option (\<lambda>x. (RedundantSig, x)) (diag_body (drop (length p1) s))
      else if take (length p2) s = p2 then map_option (\<lambda>x. (ShareFailedSig, x)) (diag_body (drop (length p2) s))
      else None)"

lemma py_int_str_space: "py_int_str (CHR '' '' # s) = py_int_str s"
proof -
  have "py_space (CHR '' '')" by (simp add: py_space_def)
  then have "py_strip (CHR '' '' # s) = py_strip s" by (simp add: py_strip_def)
  then show ?thesis by (simp add: py_int_str_def)
qed

lemma py_str_int_no_comma: "CHR '','' \<notin> set (py_str_int i)"
proof -
  have "\<not> is_digit CHR '',''" by (simp add: is_digit_def)
  then have "CHR '','' \<notin> set (py_digits m)" for m
    using py_digits_all_digits [of m] by (auto simp: list_all_iff)
  then show ?thesis by (simp add: py_str_int_def)
qed

lemma diag_body_roundtrip:
  "diag_body (''('' @ py_repr_str sid @ '', '' @ py_str_int pid @ '', '' @ py_str_int i @ '', '' @ py_str_int r @ '')'') =
     Some (sid, pid, i, r)"
proof -
  let ?rest = "'', '' @ py_str_int pid @ '', '' @ py_str_int i @ '', '' @ py_str_int r @ '')''"
  have u: "py_unrepr (py_repr_str sid @ ?rest) = Some (sid, ?rest)" by (rule py_unrepr_repr)
  have b: "butlast (drop 2 ?rest) = py_str_int pid @ CHR '','' # '' '' @ py_str_int i @ CHR '','' # '' '' @ py_str_int r"
    by (simp add: butlast_append)
  have sp: "py_split CHR '','' (butlast (drop 2 ?rest)) =
      [py_str_int pid, CHR '' '' # py_str_int i, CHR '' '' # py_str_int r]"
    unfolding b using py_str_int_no_comma [of pid] py_str_int_no_comma [of i] py_str_int_no_comma [of r]
    by (simp add: py_split_append py_split_no_sep)
  show ?thesis
    using u sp py_str_int_ne [of pid]
    by (simp add: diag_body_def py_int_str_space py_int_str_roundtrip)
qed

lemma diag_parse_line: "diag_parse (diag_line k sid pid i r) = Some (k, sid, pid, i, r)"
  by (cases k) (simp_all add: diag_parse_def diag_line_def diag_text_def diag_body_roundtrip [simplified])

lemma recv_stdout_Cons:
  "recv_stdout c (m # ms) (out # outs) = recv_print c m out @ recv_stdout c ms outs"
  by (simp add: recv_stdout_def)

lemma recv_stdout_source:
  assumes "recv_loop c pk env st ms = (st', outs, err)" "l \<in> set (recv_stdout c ms outs)"
  shows "\<exists>st0 st1 m out. m \<in> set ms \<and> recv_step c pk env st0 m = Inr (st1, out) \<and> l \<in> set (recv_print c m out)"
  using assms
proof (induction ms arbitrary: st outs)
  case Nil
  then show ?case by (simp add: recv_stdout_def)
next
  case (Cons m ms)
  from Cons.prems(1) show ?case
  proof (cases rule: recv_loop_Cons_Inr)
    case died
    with Cons.prems(2) show ?thesis by (simp add: recv_stdout_def)
  next
    case (cont st1 out outs1)
    show ?thesis
    proof (cases "l \<in> set (recv_print c m out)")
      case True
      with cont(1) show ?thesis by (meson list.set_intros(1))
    next
      case False
      with Cons.prems(2) cont(3) have "l \<in> set (recv_stdout c ms outs1)" by (simp add: recv_stdout_Cons)
      from Cons.IH [OF cont(2) this] show ?thesis by (meson list.set_intros(2))
    qed
  qed
qed

lemma recv_print_parse:
  "map diag_parse (recv_print c m out) =
   map (\<lambda>(k, i, r). Some (k, cc_sid c, cc_pid c, i, r)) (diag_event m out)"
  by (cases m rule: prod_cases4, cases out)
     (simp_all add: recv_print_def diag_event_def msg_round_def diag_parse_line)

lemma recv_print_failed:
  assumes "diag_line ShareFailedSig sid pid i r \<in> set (recv_print c m out)"
  shows "out = ShareFailed \<and> fst m = i"
proof -
  from assms have "diag_parse (diag_line ShareFailedSig sid pid i r) \<in> set (map diag_parse (recv_print c m out))"
    by simp
  then have "(ShareFailedSig, i, r) \<in> set (diag_event m out)"
    unfolding recv_print_parse diag_parse_line by auto
  then show ?thesis by (cases out) (auto simp: diag_event_def)
qed

lemma honest_share_not_failed:
  assumes "codec_ok env" "sk_correct pk sk i"
  shows "recv_step c pk env st (i, coin_broadcast_msg c pk sk env r) \<noteq> Inr (st', ShareFailed)"
proof
  assume step: "recv_step c pk env st (i, coin_broadcast_msg c pk sk env r) = Inr (st', ShareFailed)"
  then have "recv_step c pk env st (i, ''COIN'', r, serialize env (sk_sign sk (round_digest c pk r))) = Inr (st', ShareFailed)"
    by (simp add: coin_broadcast_msg_def)
  then show False
  proof (cases rule: recv_step_Inr)
    case (failed sig)
    with assms show False unfolding codec_ok_def sk_correct_def by (metis option.inject)
  qed auto
qed

text \<open>C31: the standard output of the receive loop can be read back: parsing every printed
  line recovers, in order, exactly the diagnostic events of the loop -- one
  \<open>(RedundantSig, i, r)\<close> per redundant share and one \<open>(ShareFailedSig, i, r)\<close> per share that
  failed verification, each tagged with the instance's \<open>sid\<close> and \<open>pid\<close>.\<close>

theorem recv_stdout_parse:
  "map diag_parse (recv_stdout c ms outs) =
   map (\<lambda>(k, i, r). Some (k, cc_sid c, cc_pid c, i, r)) (concat (map2 diag_event ms outs))"
proof (induction ms arbitrary: outs)
  case Nil
  then show ?case by (simp add: recv_stdout_def)
next
  case (Cons m ms)
  then show ?case
    by (cases outs) (auto simp: recv_stdout_def recv_stdout_Cons recv_print_parse)
qed

text \<open>C32: accountability of the diagnostics.  If every message carrying sender id \<open>i\<close> is
  one of \<open>i\<close>'s honest broadcasts (the authenticated channel of the transport) and \<open>i\<close>'s key
  share is correct, no ``Signature share failed!'' line naming \<open>i\<close> is ever printed, whatever
  the other senders inject and whatever the state the loop starts from.\<close>

theorem recv_loop_no_false_blame:
  assumes loop: "recv_loop c pk env st ms = (st', outs, err)" and cd: "codec_ok env"
    and hk: "sk_correct pk sk i"
    and auth: "\<forall>m \<in> set ms. fst m = i \<longrightarrow> (\<exists>r'. m = (i, coin_broadcast_msg c pk sk env r'))"
  shows "diag_line ShareFailedSig (cc_sid c) (cc_pid c) i r \<notin> set (recv_stdout c ms outs)"
proof
  assume "diag_line ShareFailedSig (cc_sid c) (cc_pid c) i r \<in> set (recv_stdout c ms outs)"
  from recv_stdout_source [OF loop this] obtain st0 st1 m out where
    m: "m \<in> set ms" and step: "recv_step c pk env st0 m = Inr (st1, out)"
    and l: "diag_line ShareFailedSig (cc_sid c) (cc_pid c) i r \<in> set (recv_print c m out)" by blast
  from recv_print_failed [OF l] have "out = ShareFailed" "fst m = i" by auto
  with auth m obtain r' where "m = (i, coin_broadcast_msg c pk sk env r')" by blast
  with step \<open>out = ShareFailed\<close> honest_share_not_failed [OF cd hk] show False by blast
qed

theorem recv_loop_no_false_blame_witness:
  "diag_line ShareFailedSig ''sidA'' 0 1 0 \<notin> set (recv_stdout demo_cfg
      [demo_share 1 0, (3, ''COIN'', 0, [99]), demo_share 1 0, demo_share 1 5]
      (fst (snd (recv_loop demo_cfg demo_pk toy_env init_coin_state
        [demo_share 1 0, (3, ''COIN'', 0, [99]), demo_share 1 0, demo_share 1 5])))) \<and>
   diag_line ShareFailedSig ''sidA'' 0 3 0 \<in> set (recv_stdout demo_cfg
      [demo_share 1 0, (3, ''COIN'', 0, [99]), demo_share 1 0, demo_share 1 5]
      (fst (snd (recv_loop demo_cfg demo_pk toy_env init_coin_state
        [demo_share 1 0, (3, ''COIN'', 0, [99]), demo_share 1 0, demo_share 1 5]))))"
proof
  have auth: "\<forall>m \<in> set [demo_share 1 0, (3, ''COIN'', 0, [99]), demo_share 1 0, demo_share 1 5].
      fst m = 1 \<longrightarrow> (\<exists>r'. m = (1, coin_broadcast_msg demo_cfg demo_pk (toy_sk 1) toy_env r'))"
    by (auto simp: demo_share_def coin_broadcast_msg_def)
  have loop: "recv_loop demo_cfg demo_pk toy_env init_coin_state
        [demo_share 1 0, (3, ''COIN'', 0, [99]), demo_share 1 0, demo_share 1 5] =
      (fst (recv_loop demo_cfg demo_pk toy_env init_coin_state
        [demo_share 1 0, (3, ''COIN'', 0, [99]), demo_share 1 0, demo_share 1 5]),
       fst (snd (recv_loop demo_cfg demo_pk toy_env init_coin_state
        [demo_share 1 0, (3, ''COIN'', 0, [99]), demo_share 1 0, demo_share 1 5])),
       snd (snd (recv_loop demo_cfg demo_pk toy_env init_coin_state
        [demo_share 1 0, (3, ''COIN'', 0, [99]), demo_share 1 0, demo_share 1 5])))" by simp
  from recv_loop_no_false_blame [OF loop toy_env_codec _ auth, of 0]
  have "diag_line ShareFailedSig (cc_sid demo_cfg) (cc_pid demo_cfg) 1 0 \<notin> set (recv_stdout demo_cfg
      [demo_share 1 0, (3, ''COIN'', 0, [99]), demo_share 1 0, demo_share 1 5]
      (fst (snd (recv_loop demo_cfg demo_pk toy_env init_coin_state
        [demo_share 1 0, (3, ''COIN'', 0, [99]), demo_share 1 0, demo_share 1 5]))))"
    using toy_sk_correct by (simp add: demo_pk_def)
  then show "diag_line ShareFailedSig ''sidA'' 0 1 0 \<notin> set (recv_stdout demo_cfg
      [demo_share 1 0, (3, ''COIN'', 0, [99]), demo_share 1 0, demo_share 1 5]
      (fst (snd (recv_loop demo_cfg demo_pk toy_env init_coin_state
        [demo_share 1 0, (3, ''COIN'', 0, [99]), demo_share 1 0, demo_share 1 5]))))"
    by (simp add: demo_cfg_def)
  show "diag_line ShareFailedSig ''sidA'' 0 3 0 \<in> set (recv_stdout demo_cfg
      [demo_share 1 0, (3, ''COIN'', 0, [99]), demo_share 1 0, demo_share 1 5]
      (fst (snd (recv_loop demo_cfg demo_pk toy_env init_coin_state
        [demo_share 1 0, (3, ''COIN'', 0, [99]), demo_share 1 0, demo_share 1 5]))))"
    by code_simp
qed

end
