(* ===== verification/Coin_Runner.thy ===== *)
theory Coin_Runner
  imports Coin_Main Coin_Driver
begin

text \<open>The transport side of \<^verbatim>\<open>run_common_coin\<close> (lines 102 to 120).  The program
  runner (\<^verbatim>\<open>ProcessProgramRunner\<close> of \<^verbatim>\<open>honeybadgermpc.ipc\<close>, not among the
  sources, modelled from its interface) is a record: the peer table and parameters it is
  built with, the state of its sender connections and of its listener, the channels
  opened by \<^verbatim>\<open>get_send_and_recv\<close> and the messages handed to \<^verbatim>\<open>send\<close>, each
  with its destination and channel.  \<open>runner_broadcast\<close> is the closure
  \<^verbatim>\<open>broadcast\<close> of lines 110 to 112.  \<open>run_common_coin\<close> connects, opens the
  \<^verbatim>\<open>"coin"\<close> channel, creates the coin instance (whose asserts may raise), runs the
  driver schedule of \<open>Coin_Driver\<close> on it (\<open>sys_run_upto\<close> stops at the first
  \<^verbatim>\<open>await coin(i)\<close> whose round has no bit to hand out: messages reaching a task that
  has ended and the final \<^verbatim>\<open>cancel()\<close> of a task that has ended change nothing, so a
  stop is always such an \<^verbatim>\<open>await\<close>), and on completion closes the sender and then the
  listener.  There is no \<^verbatim>\<open>try\<close>/\<^verbatim>\<open>finally\<close>: an exception or a wait that never
  ends leaves both open.\<close>

datatype link_state = LinkIdle | LinkOpen | LinkClosed

record runner =
  rn_config :: "(int \<times> node_details) list"
  rn_n :: int
  rn_t :: int
  rn_nodeid :: int
  rn_sender :: link_state
  rn_listener :: link_state
  rn_channels :: "string list"
  rn_wire :: "(party \<times> string \<times> (string \<times> round \<times> bytes)) list"

definition runner_new :: "(int \<times> node_details) list \<Rightarrow> int \<Rightarrow> int \<Rightarrow> int \<Rightarrow> runner" where
  "runner_new config n t nodeid =
     \<lparr>rn_config = config, rn_n = n, rn_t = t, rn_nodeid = nodeid, rn_sender = LinkIdle,
      rn_listener = LinkOpen, rn_channels = [], rn_wire = []\<rparr>"

definition sender_connect :: "runner \<Rightarrow> runner" where
  "sender_connect R = R\<lparr>rn_sender := LinkOpen\<rparr>"

definition get_send_and_recv :: "string \<Rightarrow> runner \<Rightarrow> runner" where
  "get_send_and_recv tag R = R\<lparr>rn_channels := rn_channels R @ [tag]\<rparr>"

definition runner_send :: "string \<Rightarrow> party \<Rightarrow> string \<times> round \<times> bytes \<Rightarrow> runner \<Rightarrow> runner" where
  "runner_send tag i x R = R\<lparr>rn_wire := rn_wire R @ [(i, tag, x)]\<rparr>"

definition runner_broadcast :: "string \<Rightarrow> int \<Rightarrow> string \<times> round \<times> bytes \<Rightarrow> runner \<Rightarrow> runner" where
  "runner_broadcast tag n x R = fold (\<lambda>i. runner_send tag (int i) x) [0..<nat n] R"

definition sender_close :: "runner \<Rightarrow> runner" where
  "sender_close R = R\<lparr>rn_sender := LinkClosed\<rparr>"

definition listener_close :: "runner \<Rightarrow> runner" where
  "listener_close R = R\<lparr>rn_listener := LinkClosed\<rparr>"

fun sys_run_upto ::
  "coin_config \<Rightarrow> ('sig, 'h) tbls_pk \<Rightarrow> ('sig, 'h) tbls_sk \<Rightarrow> 'sig tbls_env \<Rightarrow> 'sig coin_sys
   \<Rightarrow> coin_event list \<Rightarrow> 'sig coin_sys \<times> bool" where
  "sys_run_upto c pk sk env s [] = (s, True)"
| "sys_run_upto c pk sk env s (e # es) =
     (case sys_step c pk sk env s e of
        None \<Rightarrow> (s, False)
      | Some s' \<Rightarrow> sys_run_upto c pk sk env s' es)"

datatype 'sig rcc_outcome =
    RccRaised setup_error runner
  | RccStuck runner "'sig coin_sys"
  | RccDone runner "'sig coin_sys"

definition rcc_config :: "int \<Rightarrow> int \<Rightarrow> int \<Rightarrow> coin_config" where
  "rcc_config n f nodeid = \<lparr>cc_sid = ''sidA'', cc_pid = nodeid, cc_n = n, cc_f = f\<rparr>"

definition run_common_coin ::
  "(int \<times> node_details) list \<Rightarrow> ('sig, 'h) tbls_pk \<Rightarrow> ('sig, 'h) tbls_sk \<Rightarrow> int \<Rightarrow> int \<Rightarrow> int
   \<Rightarrow> 'sig tbls_env \<Rightarrow> coin_msg list list \<Rightarrow> 'sig rcc_outcome" where
  "run_common_coin config pbk pvk n f nodeid env mss =
     (let R = get_send_and_recv ''coin'' (sender_connect (runner_new config n f nodeid));
          c = rcc_config n f nodeid in
      case shared_coin c pbk of
        Inl e \<Rightarrow> RccRaised e R
      | Inr s0 \<Rightarrow>
          (case sys_run_upto c pbk pvk env s0 (run_common_coin_events mss) of
             (s, ok) \<Rightarrow>
               (let R' = fold (runner_broadcast ''coin'' n) (sent s) R in
                if ok then RccDone (listener_close (sender_close R')) s else RccStuck R' s)))"

definition rcc_wire :: "coin_config \<Rightarrow> ('sig, 'h) tbls_pk \<Rightarrow> ('sig, 'h) tbls_sk \<Rightarrow> 'sig tbls_env
   \<Rightarrow> (party \<times> string \<times> (string \<times> round \<times> bytes)) list" where
  "rcc_wire c pk sk env =
     concat (map (\<lambda>r. map (\<lambda>i. (int i, ''coin'', coin_broadcast_msg c pk sk env (int r))) [0..<nat (cc_n c)])
       [0..<10])"

definition call_rounds :: "coin_event list \<Rightarrow> round list" where
  "call_rounds es = concat (map (\<lambda>e. case e of Call r \<Rightarrow> [r] | _ \<Rightarrow> []) es)"

subsection \<open>Lemmas\<close>

lemma sys_run_upto_Some: "sys_run c pk sk env s es = Some s' \<Longrightarrow> sys_run_upto c pk sk env s es = (s', True)"
  by (induction es arbitrary: s) (auto split: option.splits)

lemma sys_step_sent:
  "sys_step c pk sk env s e = Some s' \<Longrightarrow>
   sent s' = sent s @ map (coin_broadcast_msg c pk sk env) (call_rounds [e])"
  by (cases e) (auto simp: call_rounds_def get_coin_call_def recv_deliver_def recv_cancel_def
      get_coin_wake_def split: if_splits option.splits sum.splits prod.splits)

lemma sys_run_sent:
  "sys_run c pk sk env s es = Some s' \<Longrightarrow>
   sent s' = sent s @ map (coin_broadcast_msg c pk sk env) (call_rounds es)"
proof (induction es arbitrary: s)
  case Nil
  then show ?case by (simp add: call_rounds_def)
next
  case (Cons e es)
  then obtain s1 where st: "sys_step c pk sk env s e = Some s1" and run: "sys_run c pk sk env s1 es = Some s'"
    by (auto split: option.splits)
  have "call_rounds (e # es) = call_rounds [e] @ call_rounds es" by (simp add: call_rounds_def)
  with sys_step_sent [OF st] Cons.IH [OF run] show ?case by simp
qed

lemma call_rounds_append [simp]: "call_rounds (xs @ ys) = call_rounds xs @ call_rounds ys"
  by (simp add: call_rounds_def)

lemma call_rounds_concat: "call_rounds (concat xss) = concat (map call_rounds xss)"
  by (induction xss) (simp_all add: call_rounds_def)

lemma call_rounds_events:
  "length mss = 10 \<Longrightarrow> call_rounds (run_common_coin_events mss) = map int [0..<10]"
proof -
  assume len: "length mss = 10"
  have dr: "call_rounds (driver_round r ms) = [r]" for r ms
    by (simp add: call_rounds_def driver_round_def comp_def)
  have gen: "concat (map (\<lambda>p. call_rounds (driver_round (int (fst p)) (snd p))) ys) = map int (map fst ys)"
    for ys :: "(nat \<times> coin_msg list) list"
    by (induction ys) (simp_all add: dr)
  have "call_rounds (run_common_coin_events mss) =
      concat (map (\<lambda>p. call_rounds (driver_round (int (fst p)) (snd p))) (zip [0..<10] mss))"
  proof -
    have "call_rounds [Cancel] = []" by (simp add: call_rounds_def)
    then show ?thesis
      unfolding run_common_coin_events_def call_rounds_append call_rounds_concat
      by (simp add: split_def comp_def)
  qed
  also have "\<dots> = map int (map fst (zip [0..<10] mss))" by (rule gen)
  also have "\<dots> = map int [0..<10]" using len by (simp add: map_fst_zip)
  finally show ?thesis .
qed

lemma runner_broadcast_fields:
  "rn_wire (runner_broadcast tag n x R) = rn_wire R @ map (\<lambda>i. (int i, tag, x)) [0..<nat n] \<and>
   rn_sender (runner_broadcast tag n x R) = rn_sender R \<and>
   rn_listener (runner_broadcast tag n x R) = rn_listener R \<and>
   rn_channels (runner_broadcast tag n x R) = rn_channels R"
proof -
  have "\<And>R. rn_wire (fold (\<lambda>i. runner_send tag (int i) x) xs R) = rn_wire R @ map (\<lambda>i. (int i, tag, x)) xs \<and>
    rn_sender (fold (\<lambda>i. runner_send tag (int i) x) xs R) = rn_sender R \<and>
    rn_listener (fold (\<lambda>i. runner_send tag (int i) x) xs R) = rn_listener R \<and>
    rn_channels (fold (\<lambda>i. runner_send tag (int i) x) xs R) = rn_channels R" for xs
    by (induction xs) (auto simp: runner_send_def)
  then show ?thesis by (simp add: runner_broadcast_def)
qed

lemma fold_broadcast_fields:
  "rn_wire (fold (runner_broadcast tag n) os R) =
     rn_wire R @ concat (map (\<lambda>x. map (\<lambda>i. (int i, tag, x)) [0..<nat n]) os) \<and>
   rn_sender (fold (runner_broadcast tag n) os R) = rn_sender R \<and>
   rn_listener (fold (runner_broadcast tag n) os R) = rn_listener R \<and>
   rn_channels (fold (runner_broadcast tag n) os R) = rn_channels R"
  by (induction os arbitrary: R) (simp_all add: runner_broadcast_fields)

lemma run_common_coin_done:
  assumes k: "pk_k pbk = f + 1" and l: "pk_l pbk = n" and f0: "0 \<le> f"
    and snd: "tbls_sound pbk tsig" and dg: "digest_nonempty env" and cd: "codec_ok env"
    and honest: "\<forall>i \<in> set P. sk_correct pbk (sks i) i" and quorum: "f + 1 \<le> int (card (set P))"
    and msgs: "list_all2 (\<lambda>k ms. set (honest_msgs (rcc_config n f nodeid) pbk sks env (int k) P) \<subseteq> set ms \<and>
       list_all (msg_ok (rcc_config n f nodeid) env) ms) [0..<10] mss"
  shows "\<exists>R s. run_common_coin config pbk pvk n f nodeid env mss = RccDone R s \<and>
    rn_sender R = LinkClosed \<and> rn_listener R = LinkClosed \<and> rn_channels R = [''coin''] \<and>
    rn_wire R = rcc_wire (rcc_config n f nodeid) pbk pvk env \<and> recv_status s = Cancelled \<and>
    driver_log s = map (\<lambda>k. coin_log_line (int k) (the (ideal_coin env pbk tsig ''sidA'' (int k)))) [0..<10]"
proof -
  let ?c = "rcc_config n f nodeid"
  let ?R = "get_send_and_recv ''coin'' (sender_connect (runner_new config n f nodeid))"
  let ?s0 = "\<lparr>engine = init_coin_state, recv_status = Running, sent = [], waiting = [], returned = []\<rparr>"
  have s0: "shared_coin ?c pbk = Inr ?s0" using k l by (simp add: shared_coin_def rcc_config_def)
  have f0': "0 \<le> cc_f ?c" and q: "cc_f ?c + 1 \<le> int (card (set P))" and sid: "cc_sid ?c = ''sidA''"
    using f0 quorum by (simp_all add: rcc_config_def)
  from driver_coins_run [OF s0 f0' snd dg cd honest q msgs] obtain s where
    run: "sys_run ?c pbk pvk env ?s0 (run_common_coin_events mss) = Some s"
    and st: "recv_status s = Cancelled"
    and lg: "driver_log s = map (\<lambda>k. coin_log_line (int k) (the (ideal_coin env pbk tsig (cc_sid ?c) (int k)))) [0..<10]"
    by blast
  have len: "length mss = 10" using list_all2_lengthD [OF msgs] by simp
  from sys_run_sent [OF run] call_rounds_events [OF len]
  have sent: "sent s = map (\<lambda>r. coin_broadcast_msg ?c pbk pvk env (int r)) [0..<10]" by simp
  let ?R' = "fold (runner_broadcast ''coin'' n) (sent s) ?R"
  have flds: "rn_wire ?R' = rcc_wire ?c pbk pvk env" "rn_sender ?R' = LinkOpen" "rn_listener ?R' = LinkOpen"
    "rn_channels ?R' = [''coin'']"
    using fold_broadcast_fields [of "''coin''" n "sent s" ?R]
    by (simp_all add: sent rcc_wire_def rcc_config_def runner_new_def sender_connect_def get_send_and_recv_def comp_def)
  have "run_common_coin config pbk pvk n f nodeid env mss = RccDone (listener_close (sender_close ?R')) s"
    using s0 sys_run_upto_Some [OF run] by (simp add: run_common_coin_def Let_def)
  with flds st lg sid show ?thesis
    by (intro exI [where x = "listener_close (sender_close ?R')"] exI [where x = s])
       (simp add: listener_close_def sender_close_def)
qed

text \<open>C34: the driver's traffic and its teardown.  Under the hypotheses of C18 (a sound
  key matching \<open>k = f + 1\<close> and \<open>l = n\<close>, and \<open>f + 1\<close> honest shares of each round
  reaching the node while it waits), \<^verbatim>\<open>run_common_coin\<close> completes: it has opened the
  one channel \<^verbatim>\<open>"coin"\<close>, sent exactly one share of each round 0 to 9 to every party of
  \<^verbatim>\<open>range(n)\<close>, rounds in order and parties in order, closed the sender and the
  listener, left the receive task cancelled and logged the ideal coin of each round.\<close>

theorem run_common_coin_completes:
  assumes k: "pk_k pbk = f + 1" and l: "pk_l pbk = n" and f0: "0 \<le> f"
    and snd: "tbls_sound pbk tsig" and dg: "digest_nonempty env" and cd: "codec_ok env"
    and honest: "\<forall>i \<in> set P. sk_correct pbk (sks i) i" and quorum: "f + 1 \<le> int (card (set P))"
    and msgs: "list_all2 (\<lambda>k ms. set (honest_msgs (rcc_config n f nodeid) pbk sks env (int k) P) \<subseteq> set ms \<and>
       list_all (msg_ok (rcc_config n f nodeid) env) ms) [0..<10] mss"
  shows "\<exists>R s. run_common_coin config pbk pvk n f nodeid env mss = RccDone R s \<and>
    rn_sender R = LinkClosed \<and> rn_listener R = LinkClosed \<and> rn_channels R = [''coin''] \<and>
    rn_wire R = rcc_wire (rcc_config n f nodeid) pbk pvk env \<and> recv_status s = Cancelled \<and>
    driver_log s = map (\<lambda>k. coin_log_line (int k) (the (ideal_coin env pbk tsig ''sidA'' (int k)))) [0..<10]"
  by (rule run_common_coin_done [OF k l f0 snd dg cd honest quorum msgs])

theorem run_common_coin_completes_witness:
  "\<exists>R s. run_common_coin [] demo_pk (toy_sk 0) 4 1 0 toy_env demo_driver_msgs = RccDone R s \<and>
    rn_sender R = LinkClosed \<and> rn_listener R = LinkClosed \<and> rn_channels R = [''coin''] \<and>
    rn_wire R = rcc_wire (rcc_config 4 1 0) demo_pk (toy_sk 0) toy_env \<and> recv_status s = Cancelled \<and>
    driver_log s = map (\<lambda>k. coin_log_line (int k) (the (ideal_coin toy_env demo_pk (\<lambda>h. h) ''sidA'' (int k)))) [0..<10]"
proof (rule run_common_coin_completes [where P = "[0, 1]" and sks = toy_sk])
  show "pk_k demo_pk = 1 + 1" "pk_l demo_pk = 4" "0 \<le> (1::int)" by (simp_all add: demo_pk_def toy_pk_def)
  show "tbls_sound demo_pk (\<lambda>h. h)" unfolding demo_pk_def by (rule toy_pk_sound) simp
  show "digest_nonempty toy_env" by (rule toy_env_digest)
  show "codec_ok toy_env" by (rule toy_env_codec)
  show "\<forall>i \<in> set [0, 1]. sk_correct demo_pk (toy_sk i) i"
    unfolding demo_pk_def using toy_sk_correct by blast
  show "1 + 1 \<le> int (card (set [0, 1 :: int]))" by simp
  have "rcc_config 4 1 0 = demo_cfg" by (simp add: rcc_config_def demo_cfg_def)
  moreover have "list_all2 (\<lambda>k ms. set (honest_msgs demo_cfg demo_pk toy_sk toy_env (int k) [0, 1]) \<subseteq> set ms \<and>
       list_all (msg_ok demo_cfg toy_env) ms) [0..<10] demo_driver_msgs"
    by code_simp
  ultimately show "list_all2 (\<lambda>k ms. set (honest_msgs (rcc_config 4 1 0) demo_pk toy_sk toy_env (int k) [0, 1]) \<subseteq> set ms \<and>
       list_all (msg_ok (rcc_config 4 1 0) toy_env) ms) [0..<10] demo_driver_msgs"
    by simp
qed

text \<open>C35: the key check comes after the connection.  If the threshold key does not match
  (\<open>pk.k \<noteq> f + 1\<close> or \<open>pk.l \<noteq> n\<close>), \<^verbatim>\<open>run_common_coin\<close> raises the
  \<^verbatim>\<open>AssertionError\<close> of \<^verbatim>\<open>shared_coin\<close> after it has connected the sender and
  opened the \<^verbatim>\<open>"coin"\<close> channel: nothing has been sent, and since there is no
  \<^verbatim>\<open>try\<close>/\<^verbatim>\<open>finally\<close>, the sender and the listener are left open.\<close>

theorem run_common_coin_assert_leaves_open:
  assumes "pk_k pbk \<noteq> f + 1 \<or> pk_l pbk \<noteq> n"
  shows "\<exists>e R. run_common_coin config pbk pvk n f nodeid env mss = RccRaised e R \<and>
    rn_sender R = LinkOpen \<and> rn_listener R = LinkOpen \<and> rn_channels R = [''coin''] \<and> rn_wire R = []"
  using assms
  by (auto simp: run_common_coin_def shared_coin_def rcc_config_def Let_def runner_new_def
      sender_connect_def get_send_and_recv_def)

theorem run_common_coin_assert_leaves_open_witness:
  "\<exists>e R. run_common_coin [] demo_pk (toy_sk 0) 4 2 0 toy_env demo_driver_msgs = RccRaised e R \<and>
    rn_sender R = LinkOpen \<and> rn_listener R = LinkOpen \<and> rn_channels R = [''coin''] \<and> rn_wire R = []"
proof (rule run_common_coin_assert_leaves_open)
  show "pk_k demo_pk \<noteq> 2 + 1 \<or> pk_l demo_pk \<noteq> 4" by (simp add: demo_pk_def toy_pk_def)
qed

end
