(* ===== verification/Coin_Program.thy ===== *)
theory Coin_Program
  imports Coin_Runner
begin

text \<open>The whole program: the \<^verbatim>\<open>__main__\<close> block (lines 133 to 181) set up by
  \<open>main_setup\<close>, then \<^verbatim>\<open>loop.run_until_complete(run_common_coin(network_info, pbk,
  pvk, n, t, nodeid))\<close>, the \<open>run_common_coin\<close> of \<open>Coin_Runner\<close>.  The event loop is closed in the
  \<^verbatim>\<open>finally\<close> branch whatever the outcome, which leaves no trace in the model.\<close>

definition run_program ::
  "(string \<times> string) list \<Rightarrow> string list \<Rightarrow> (string \<Rightarrow> main_config)
   \<Rightarrow> (string \<Rightarrow> ('sig, 'h) tbls_pk option) \<Rightarrow> (string \<Rightarrow> ('sig, 'h) tbls_sk option)
   \<Rightarrow> 'sig tbls_env \<Rightarrow> coin_msg list list \<Rightarrow> main_error + 'sig rcc_outcome" where
  "run_program environ argv load_config load_pk load_sk env mss =
     (case main_setup environ argv load_config load_pk load_sk of
        Inl e \<Rightarrow> Inl e
      | Inr R \<Rightarrow> Inr (run_common_coin (mr_network R) (mr_pbk R) (mr_pvk R) (mr_n R) (mr_t R) (mr_nodeid R)
                    env mss))"

end
