(* ===== verification/Spec2Isabelle.thy ===== *)
theory Spec2Isabelle
  imports Coin_Net Coin_Task Coin_Bounds Coin_Order Coin_Log Coin_Program
begin

text \<open>
  \<^bold>\<open>A verification development of the HoneyBadgerMPC common coin\<close>
  (\<^verbatim>\<open>src/honeybadgermpc/protocols/commoncoin.py\<close>).

  \<^bold>\<open>The program.\<close> \<^verbatim>\<open>shared_coin(sid, pid, n, f, pk, sk, broadcast, receive)\<close>
  checks that the threshold key needs \<open>k = f + 1\<close> of \<open>l = n\<close> shares, creates two
  closure variables, \<^verbatim>\<open>received\<close> (round \<open>\<rightarrow>\<close> insertion-ordered dict sender
  \<open>\<rightarrow>\<close> share) and \<^verbatim>\<open>output_queue\<close> (round \<open>\<rightarrow>\<close> \<^verbatim>\<open>asyncio.Queue(1)\<close>),
  starts the receive task \<^verbatim>\<open>_recv\<close> and returns \<^verbatim>\<open>get_coin\<close>. The receive task
  loops forever over network messages \<open>(i, (tag, r, sig_bytes))\<close>: it deserialises the
  share, asserts that the sender is in \<^verbatim>\<open>range(n)\<close> and the round is not negative,
  skips a second share of a sender, skips a share that does not verify on the digest of
  \<^verbatim>\<open>str((sid, r))\<close>, stores the rest, and when a round's ledger reaches exactly
  \<open>f + 1\<close> shares combines them, asserts the combined signature, hashes it and puts
  the least bit of the first byte into the round's queue. \<^verbatim>\<open>get_coin(r)\<close>
  broadcasts the caller's share of round \<open>r\<close> and waits on the round's queue.
  The tasks share the two closure variables and talk to other parties through the
  \<^verbatim>\<open>broadcast\<close> and \<^verbatim>\<open>receive\<close> capabilities.

  \<^bold>\<open>The theories.\<close>
  \<^item> \<open>Coin_Prelude\<close>: the Python built-ins the code uses, with their Python
    behaviour: \<^verbatim>\<open>i in range(n)\<close>, dict membership and assignment on an
    insertion-ordered association list, the slice \<^verbatim>\<open>xs[:m]\<close>, \<^verbatim>\<open>xs[0]\<close>
    (\<open>None\<close> for \<^verbatim>\<open>IndexError\<close>), \<^verbatim>\<open>Queue.put_nowait\<close> (\<open>None\<close> for
    \<^verbatim>\<open>QueueFull\<close>) and \<^verbatim>\<open>Queue.get\<close>; the \<open>py_simps\<close> collection.
  \<^item> \<open>Threshold_Sig\<close>: the threshold-signature capability (\<^verbatim>\<open>boldyreva\<close>, not
    among the sources, modelled from the spec's interface) as records of operations,
    \<^verbatim>\<open>hash\<close> (line 14) and the coin bit (line 77); \<open>tbls_sound\<close> is the one
    property of the scheme the coin relies on (any \<open>k\<close> valid shares of distinct
    parties combine to the one signature of the digest, which verifies); a toy scheme
    over bytes satisfies it and drives the witnesses.
  \<^item> \<open>Py_Repr\<close>: \<^verbatim>\<open>str((sid, r))\<close> as CPython prints it (\<open>coin_context\<close>),
    with a reader for it, the inverse of \<^verbatim>\<open>repr\<close> and of \<^verbatim>\<open>str(int)\<close>.
  \<^item> \<open>Coin_Engine\<close>: the receive task. \<open>coin_state\<close> is the pair of closure
    variables, \<open>recv_step\<close> one iteration of the loop of \<^verbatim>\<open>_recv\<close> (lines 36 to
    80) with every branch, \<open>resolve_round\<close> the threshold branch (lines 69 to 80),
    \<open>recv_loop\<close> the loop over the messages delivered so far. An exception is an
    \<open>Inl\<close> of \<open>recv_error\<close> (one constructor per raise site) and ends the loop.
  \<^item> \<open>Coin_Handle\<close>: the constructor \<open>shared_coin\<close> (asserts of lines 31 and 32),
    \<^verbatim>\<open>get_coin\<close> as a call step (broadcast, suspend) and a resumption step
    (\<^verbatim>\<open>Queue.get\<close>), delivery of any network message to the receive task, its
    death by exception and its cancellation (line 117), composed into \<open>sys_step\<close>;
    \<open>reachable\<close> is the inductive set of states of a coin instance under every
    interleaving the asyncio scheduler and an adversarial network allow.
  \<^item> \<open>Coin_Driver\<close>: the driver \<^verbatim>\<open>run_common_coin\<close> (lines 102 to 120) as an event
    schedule of the system, \<open>run_common_coin_events\<close>: for each of the rounds 0 to 9 the
    call, the deliveries while the caller waits, the resumption, then the cancellation
    of line 117; and the invariant \<open>resolved_inv\<close> that a round past \<open>f\<close> shares has
    had its coin put or handed out.
  \<^item> \<open>Coin_Net\<close>: \<open>n\<close> coin instances composed over the transport: each honest
    party's instance (\<open>party_step\<close>), \<^verbatim>\<open>broadcast\<close> as one send per party
    (\<open>broadcast_sends\<close>, lines 110 to 112), messages in flight, Byzantine injection;
    \<open>net_reachable\<close> is the set of states of the whole network.
  \<^item> \<open>Coin_Task\<close>: the \<^verbatim>\<open>while True\<close> loop of \<^verbatim>\<open>_recv\<close> over the
    unbounded \<^verbatim>\<open>receive()\<close> source, an infinite stream of messages, as the
    \<open>partial_function (option)\<close> \<open>recv_task\<close> (\<open>None\<close>: the task never returns).
  \<^item> \<open>Coin_Bounds\<close>: bounds and the shape of the data (\<open>typed_state\<close>) in every
    reachable state.
  \<^item> \<open>Coin_Main\<close>: the \<^verbatim>\<open>__main__\<close> block up to the call of
    \<^verbatim>\<open>run_common_coin\<close> (lines 133 to 173) as \<open>main_setup\<close>: environment and
    \<^verbatim>\<open>sys.argv\<close> (\<open>main_args\<close>), the \<^verbatim>\<open>ConfigurationError\<close> checks
    (\<open>main_check\<close>), config lookups, Python's \<^verbatim>\<open>int\<close> on strings
    (\<open>py_int_str\<close>) and the peer table (\<open>network_info\<close>); \<open>main_coin_config\<close> is
    the coin instance it leads to.
  \<^item> \<open>Coin_Order\<close>: the receive loop against an order-free specification: the rounds
    whose coins are put, and their bits, depend only on the set of messages delivered
    (\<open>coin_spec_resolves\<close>: at least \<open>f + 1\<close> distinct senders of valid shares).
  \<^item> \<open>Coin_Log\<close>: the two \<^verbatim>\<open>print\<close> calls of \<^verbatim>\<open>_recv\<close> (lines 48 and 58) as the
    standard output of the receive loop (\<open>diag_line\<close>, \<open>recv_print\<close>,
    \<open>recv_stdout\<close>), with a reader for the printed lines (\<open>diag_parse\<close>). The
    driver's \<^verbatim>\<open>logging.info\<close> of line 116 is \<open>driver_log\<close> in \<open>Coin_Driver\<close>.
  \<^item> \<open>Coin_Runner\<close>: \<^verbatim>\<open>run_common_coin\<close> (lines 102 to 120) with its transport:
    the program runner (\<^verbatim>\<open>ProcessProgramRunner\<close>, not among the sources, modelled from
    its interface) as a record of connection states, channels and sent messages;
    \<open>run_common_coin\<close> connects, opens the \<^verbatim>\<open>"coin"\<close> channel, creates the coin
    instance, runs the driver schedule until an \<^verbatim>\<open>await\<close> can never proceed
    (\<open>sys_run_upto\<close>), sends every broadcast to each party of \<^verbatim>\<open>range(n)\<close>
    (\<open>runner_broadcast\<close>) and on completion closes the sender and the listener. Its
    outcome \<open>rcc_outcome\<close> is an exception, a wait that never ends, or completion.
  \<^item> \<open>Coin_Program\<close>: the whole program, \<open>run_program\<close>: the entry point's set-up,
    then \<^verbatim>\<open>loop.run_until_complete(run_common_coin(...))\<close> (lines 175 to 181).
  \<^item> This theory: agreement between two parties of one session.

  \<^bold>\<open>What is proved.\<close> Invariants: the ledger invariant (\<open>engine_inv\<close>: one verified
  share per in-range party and round, empty queue below the threshold) is kept by every
  iteration, including those that raise; the system invariant (\<open>sys_inv\<close>: each
  round's coin is put or handed out at most once, never below \<open>f + 1\<close> shares) holds
  in every reachable state (C1). Refinement: every bit handed to a caller is the ideal
  coin of its round (C3), so two parties agree (C2). Liveness: \<open>f + 1\<close> honest
  broadcasts among any other well-formed messages resolve the round (C4), and a caller
  waiting on the round is then resumed with its coin (C15); the driver obtains the ideal
  coins of its ten rounds in order, logs them as \<^verbatim>\<open>"%d COIN VALUE: %s"\<close> lines and
  ends with the receive task cancelled (C18); what \<^verbatim>\<open>get_coin\<close>
  broadcasts is a share every receive loop accepts (C16). Composition: across a network of honest and
  Byzantine parties, delivering \<open>f + 1\<close> honest broadcasts to the waiting honest
  parties resumes every one of them with the ideal coin (C30). Order independence: two deliveries of
  the same set of well-formed messages, in any order and with any repetitions, resolve the
  same rounds to the same bits (C28), and a round is resolved exactly when the
  order-free specification says so, with the ideal bit (C29). Diagnostics: reading the
  receive loop's standard output back gives exactly its sequence of redundant and failed
  shares (C31), and a party whose messages are its own honest broadcasts is never named
  in a ``Signature share failed!'' line (C32). Safety: at most
  \<open>f\<close> senders never resolve a round (C5), the threshold branch runs at most once
  (C8), forged shares change nothing (C12), rounds are independent (C11), and with a sound
  scheme the fatal branches are unreachable (C6, C7). Termination: on an infinite stream the receive task
  returns, with a Byzantine exception, when some message is malformed (C19) and otherwise
  never returns (C20). Bounds and types: whatever the scheme, the \<^verbatim>\<open>put_nowait\<close>
  into a round's \<^verbatim>\<open>Queue(1)\<close> never meets a full queue, and a round's ledger never
  holds more than \<open>n\<close> shares (C21), and queued and returned values are bits of non-negative rounds (C22).
  Equivalence with a reference
  selection: the dict of a round equals the first valid share of each sender in arrival
  order (\<open>first_shares\<close> of \<open>valid_shares\<close>), so the coin is combined from
  exactly its first \<open>f + 1\<close> entries (C17). The signed context string determines its
  session and round (shown with a \<^verbatim>\<open>repr\<close> reader, \<open>context_parse\<close>), so no two
  rounds or sessions sign the same string (C14). Findings of the modelling, each a theorem: one malformed message ends
  the receive task (C13, where the spec says such messages are ignored), a round's coin
  reaches one \<^verbatim>\<open>get_coin\<close> call only (C9, where the spec says every call returns it),
  and after cancellation waiting callers hang (C10, where the spec asks for an error).

  The entry point: the command line overrides the environment position by position (C23);
  a missing private key gives a message asking for a config file (C24); peer addresses
  round-trip (C25) except hosts with a colon, such as IPv6 literals (C26); and config
  keys that parse to the same id are merged, the last one silently replacing the others
  (C27). \<^verbatim>\<open>run_common_coin\<close>
  opens only the \<^verbatim>\<open>"coin"\<close> channel, sends one share of each round to every party,
  in order, and closes its sender and listener (C34), while a key that does not match
  raises after the connection is made and leaves it open (C35). Boundary of the
  threshold: with \<open>0 \<le> n \<le> f\<close>, which the constructor accepts, no round ever
  resolves and every caller waits forever (C33).

  \<^bold>\<open>Bounds.\<close> No fuel is needed: the \<^verbatim>\<open>while True\<close> loop is modelled by its runs
  over the finite list of messages delivered so far and, in \<open>Coin_Task\<close>, as a partial
  function over an infinite stream whose non-return is the value \<open>None\<close>, each iteration is a total function,
  and the system is a relation whose runs are finite lists of events. Python integers
  (party ids, rounds, \<open>n\<close>, \<open>f\<close>) are \<open>int\<close>; bytes are \<open>8 word\<close>.

  \<^bold>\<open>Not modelled.\<close> The cryptography of the threshold scheme (only its interface and
  contract), the transport's implementation, framing and serialisation on the wire (the
  runner is modelled by its interface only), the reading of the config file and the unpickling of the keys (parameters of
  \<open>main_setup\<close> and \<open>run_program\<close>), the scheduling of the asyncio event loop
  beyond the interleavings of \<open>sys_step\<close>, and the
  \<^verbatim>\<open>logging.debug\<close> calls (lines 38, 42 to 44, 65 to 68, 78 and 79, 93 to 95): they
  are suppressed at the default level, change no state, and format signature objects
  whose \<^verbatim>\<open>repr\<close> belongs to the threshold library. Config values
  are taken to have the types the code uses (\<open>N\<close>, \<open>t\<close>, \<open>k\<close> integers,
  \<open>peers\<close> a dict of strings). Session ids are strings of code points below
  256. Which of several callers waiting on one round Python resumes is left open: any of
  them may be.
\<close>

text \<open>C2: agreement. Two parties of one session (same \<^verbatim>\<open>sid\<close> and threshold key,
  any party ids, any private key shares, any message deliveries) that both hand a bit
  for round \<open>r\<close> to a \<^verbatim>\<open>get_coin\<close> caller hand the same bit, whichever
  \<open>f + 1\<close> shares each combined.\<close>

theorem coin_agreement:
  assumes "reachable c1 pk sk1 env s1" "reachable c2 pk sk2 env s2" "cc_sid c1 = cc_sid c2"
    "tbls_sound pk tsig" "(r, b1) \<in> set (returned s1)" "(r, b2) \<in> set (returned s2)"
  shows "b1 = b2"
  using reachable_values_ideal [OF assms(1,4)] reachable_values_ideal [OF assms(2,4)] assms(3,5,6)
  by (fastforce simp: values_ideal_def)

theorem coin_agreement_witness:
  "\<exists>s1 s2 b1 b2.
     sys_run demo_cfg demo_pk (toy_sk 0) toy_env demo_init demo_events = Some s1 \<and>
     sys_run (demo_cfg\<lparr>cc_pid := 1\<rparr>) demo_pk (toy_sk 1) toy_env demo_init
       [Call 0, Deliver (demo_share 2 0), Deliver (demo_share 3 5), Deliver (demo_share 1 0), Wake 0] = Some s2 \<and>
     (0, b1) \<in> set (returned s1) \<and> (0, b2) \<in> set (returned s2) \<and> b1 = b2"
proof -
  have "case sys_run (demo_cfg\<lparr>cc_pid := 1\<rparr>) demo_pk (toy_sk 1) toy_env demo_init
       [Call 0, Deliver (demo_share 2 0), Deliver (demo_share 3 5), Deliver (demo_share 1 0), Wake 0] of
      Some s \<Rightarrow> (0, 1) \<in> set (returned s) | None \<Rightarrow> False"
    by code_simp
  from some_caseE [OF this] obtain s2 where run2: "sys_run (demo_cfg\<lparr>cc_pid := 1\<rparr>) demo_pk (toy_sk 1)
      toy_env demo_init
       [Call 0, Deliver (demo_share 2 0), Deliver (demo_share 3 5), Deliver (demo_share 1 0), Wake 0] = Some s2"
    and ret2: "(0, 1) \<in> set (returned s2)" by blast
  from demo_run obtain s1 where run1: "sys_run demo_cfg demo_pk (toy_sk 0) toy_env demo_init demo_events = Some s1"
    and ret1: "(0, 1) \<in> set (returned s1)" by blast
  have init2: "reachable (demo_cfg\<lparr>cc_pid := 1\<rparr>) demo_pk (toy_sk 1) toy_env demo_init"
    by (rule reachable.init) (simp add: shared_coin_def demo_init_def demo_cfg_def demo_pk_def toy_pk_def)
  have snd: "tbls_sound demo_pk (\<lambda>h. h)" unfolding demo_pk_def by (rule toy_pk_sound) simp
  have "(1::nat) = 1"
    by (rule coin_agreement [OF reachable_run [OF demo_init_reachable run1] reachable_run [OF init2 run2] _ snd
          ret1 ret2]) simp
  with run1 run2 ret1 ret2 show ?thesis by blast
qed

end
